theory Spec2Isabelle
  imports Complex_Main "HOL-Library.Sublist"
begin

chapter \<open>Session-state coordination hooks of oh-my-opencode\<close>

text \<open>
  A shallow embedding of the hook layer: the preemptive compaction trigger, the
  context-overflow recovery executor, the orchestrator's delegate hook, the planner's
  markdown-only guard and the todo-continuation state machine.

  Conventions. JavaScript strings are \<open>string\<close>; \<open>s.includes(k)\<close> is \<open>sublist k s\<close>.
  A \<open>Map\<close> keyed by session id is a partial function, a \<open>Set\<close> is a set. Counters and
  token counts are natural numbers, timestamps (\<open>Date.now()\<close>) are integers: all of them
  stay far below \<open>2^53\<close>, where a JavaScript number is exact. Every call to the host
  (\<open>client.session.*\<close>, \<open>client.tui.showToast\<close>), every timer that is set and every
  call into storage is recorded, in program order, in a log that the model returns with
  the new state; what a call to the host returns or throws is an input of the model.
\<close>

section \<open>Preemptive compaction trigger\<close>

subsection \<open>The context limit of a model\<close>

definition MODEL_CONTEXT_LIMITS :: "(string \<times> nat) list" where
  "MODEL_CONTEXT_LIMITS =
    [(''claude-opus-4'', 200000),
     (''claude-sonnet-4'', 200000),
     (''claude-haiku-4'', 200000),
     (''gpt-4o'', 128000),
     (''gpt-4o-mini'', 128000),
     (''gpt-4-turbo'', 128000),
     (''gpt-4'', 8192),
     (''gpt-5'', 1000000),
     (''o1'', 200000),
     (''o1-mini'', 128000),
     (''o1-preview'', 128000),
     (''o3'', 200000),
     (''o3-mini'', 200000),
     (''gemini-2.0-flash'', 1000000),
     (''gemini-2.5-flash'', 1000000),
     (''gemini-2.5-pro'', 2000000),
     (''gemini-3-pro'', 2000000)]"

text \<open>
  \<open>for (const [key, limit] of Object.entries(MODEL_CONTEXT_LIMITS))\<close>: the entries in
  insertion order (no key is an array index), the first key contained in the model
  identifier decides, and the loop falls through to \<open>200_000\<close>.
\<close>

fun contextLimitLoop :: "(string \<times> nat) list \<Rightarrow> string \<Rightarrow> nat" where
  "contextLimitLoop [] modelID = 200000"
| "contextLimitLoop ((key, limit) # entries) modelID =
     (if sublist key modelID then limit else contextLimitLoop entries modelID)"

definition getContextLimit :: "string \<Rightarrow> nat" where
  "getContextLimit modelID = contextLimitLoop MODEL_CONTEXT_LIMITS modelID"

text \<open>
  The lookup as the specification words it: among the table keys that are substrings of
  the model identifier the longest one decides (the earliest of the longest, should two
  have the same length), and \<open>200000\<close> when there is none.
\<close>

definition matchingEntries :: "(string \<times> nat) list \<Rightarrow> string \<Rightarrow> (string \<times> nat) list" where
  "matchingEntries table modelID = filter (\<lambda>e. sublist (fst e) modelID) table"

definition longer :: "(string \<times> nat) \<Rightarrow> (string \<times> nat) \<Rightarrow> (string \<times> nat)" where
  "longer best e = (if length (fst best) < length (fst e) then e else best)"

definition longestMatchLimit :: "string \<Rightarrow> nat" where
  "longestMatchLimit modelID =
     (case matchingEntries MODEL_CONTEXT_LIMITS modelID of
        [] \<Rightarrow> 200000
      | e # es \<Rightarrow> snd (foldl longer e es))"

subsection \<open>The trigger\<close>

record TokenInfo =
  inputTokens :: nat
  outputTokens :: nat
  cacheReadTokens :: nat

record MessageInfo =
  role :: string
  providerID :: "string option"
  modelID :: "string option"
  tokens :: "TokenInfo option"
  summary :: "bool option"

text \<open>
  \<open>PreemptiveCompactionState\<close>, the hook's \<open>state\<close> (its set \<open>compactionInProgress\<close> is
  the field \<open>preemptiveInProgress\<close>), and around it what the host sees of the hook: the
  calls the hook has made, and the calls of \<open>checkAndTriggerCompaction\<close> that are
  suspended at an \<open>await\<close>. The function is cut at its \<open>await\<close>s: while a call is
  suspended, other events are handled, and the call goes on when the awaited host call
  settles. A host call that never settles leaves the call suspended for good.
\<close>

record PreemptiveCompactionState =
  lastCompactionTime :: "string \<rightharpoonup> int"
  preemptiveInProgress :: "string set"


datatype HostCall =
    CallCompactingToast string
  | CallOnBeforeSummarize string string string
  | CallSummarize string string string
  | CallCompleteToast string

datatype Awaited =
    AwaitsCompactingToast string string string
  | AwaitsOnBeforeSummarize string string string
  | AwaitsSummarize string string string
  | AwaitsCompleteToast string

record PreemptiveHook = PreemptiveCompactionState +
  awaited :: "Awaited list"
  hostCalls :: "HostCall list"

text \<open>
  The constants of \<open>./constants\<close> and the hook's options are not part of the sources at
  hand; they are parameters. \<open>ratioThreshold\<close> is
  \<open>experimental?.preemptive_compaction_threshold ?? DEFAULT_THRESHOLD\<close>.
\<close>

record PreemptiveConfig =
  COMPACTION_COOLDOWN_MS :: int
  MIN_TOKENS_FOR_COMPACTION :: nat
  ratioThreshold :: real
  hasOnBeforeSummarize :: bool

text \<open>
  The clock as one call reads it: \<open>Date.now()\<close> at the cooldown check and at the moment
  the timestamp is stored.
\<close>

record PreemptiveEnv =
  nowAtCheck :: int
  nowAtSet :: int

definition totalUsedOf :: "TokenInfo \<Rightarrow> nat" where
  "totalUsedOf tk = inputTokens tk + cacheReadTokens tk + outputTokens tk"

text \<open>
  \<open>usageRatio = totalUsed / contextLimit\<close>. The quotient of the two integers is taken
  in the reals; the source's double is the nearest representable value.
\<close>

definition usageRatioOf :: "TokenInfo \<Rightarrow> string \<Rightarrow> real" where
  "usageRatioOf tk mid = real (totalUsedOf tk) / real (getContextLimit mid)"

definition falsy :: "string option \<Rightarrow> bool" where
  "falsy s = (case s of None \<Rightarrow> True | Some t \<Rightarrow> t = [])"

text \<open>
  \<open>checkAndTriggerCompaction\<close> up to its first \<open>await\<close>: the early returns, the flag and
  the timestamp, the return for a message without provider or model, and the call of the
  first toast.
\<close>

definition checkAndTriggerCompaction ::
  "PreemptiveConfig \<Rightarrow> PreemptiveEnv \<Rightarrow> string \<Rightarrow> MessageInfo \<Rightarrow> PreemptiveHook \<Rightarrow> PreemptiveHook" where
  "checkAndTriggerCompaction cfg env sessionID lastAssistant st =
     (if sessionID \<in> preemptiveInProgress st then st
      else
        let lastCompaction = (case lastCompactionTime st sessionID of Some t \<Rightarrow> t | None \<Rightarrow> 0) in
        if nowAtCheck env - lastCompaction < COMPACTION_COOLDOWN_MS cfg then st
        else if summary lastAssistant = Some True then st
        else
          case tokens lastAssistant of
            None \<Rightarrow> st
          | Some tk \<Rightarrow>
              let mid = (case modelID lastAssistant of Some m \<Rightarrow> m | None \<Rightarrow> []) in
              if totalUsedOf tk < MIN_TOKENS_FOR_COMPACTION cfg then st
              else if usageRatioOf tk mid < ratioThreshold cfg then st
              else
                let st1 = st\<lparr>preemptiveInProgress := insert sessionID (preemptiveInProgress st)\<rparr>;
                    st2 = st1\<lparr>lastCompactionTime := (lastCompactionTime st1)(sessionID \<mapsto> nowAtSet env)\<rparr>
                in
                if falsy (providerID lastAssistant) \<or> mid = [] then
                  st2\<lparr>preemptiveInProgress := preemptiveInProgress st2 - {sessionID}\<rparr>
                else
                  st2\<lparr>hostCalls := hostCalls st2 @ [CallCompactingToast sessionID],
                      awaited := awaited st2 @
                        [AwaitsCompactingToast sessionID (the (providerID lastAssistant)) mid]\<rparr>)"













text \<open>The early returns of \<open>checkAndTriggerCompaction\<close>, all not taken.\<close>

definition passesTriggerChecks ::
  "PreemptiveConfig \<Rightarrow> PreemptiveEnv \<Rightarrow> string \<Rightarrow> MessageInfo \<Rightarrow> PreemptiveHook \<Rightarrow> bool" where
  "passesTriggerChecks cfg env sessionID lastAssistant st =
     (sessionID \<notin> preemptiveInProgress st \<and>
      \<not> nowAtCheck env - (case lastCompactionTime st sessionID of Some t \<Rightarrow> t | None \<Rightarrow> 0)
          < COMPACTION_COOLDOWN_MS cfg \<and>
      summary lastAssistant \<noteq> Some True \<and>
      (case tokens lastAssistant of
         None \<Rightarrow> False
       | Some tk \<Rightarrow>
           \<not> totalUsedOf tk < MIN_TOKENS_FOR_COMPACTION cfg \<and>
           \<not> usageRatioOf tk (case modelID lastAssistant of Some m \<Rightarrow> m | None \<Rightarrow> [])
               < ratioThreshold cfg))"








subsection \<open>A concrete attempt: 180000 of 200000 tokens used, summarize throws\<close>






section \<open>Context-overflow recovery executor\<close>

record RetryState =
  attempt :: nat
  lastAttemptTime :: int

record FallbackState =
  revertAttempt :: nat
  lastRevertedMessageID :: "string option"

record TruncateState =
  truncateAttempt :: nat
  lastTruncatedPartId :: "string option"

text \<open>
  \<open>AutoCompactState\<close>: the six per-session collections the executor touches. What is
  stored in \<open>errorDataBySession\<close> is never read here; it is a string.
\<close>

record AutoCompactState =
  pendingCompact :: "string set"
  errorDataBySession :: "string \<rightharpoonup> string"
  retryStateBySession :: "string \<rightharpoonup> RetryState"
  fallbackStateBySession :: "string \<rightharpoonup> FallbackState"
  truncateStateBySession :: "string \<rightharpoonup> TruncateState"
  compactionInProgress :: "string set"

text \<open>
  \<open>TRUNCATE_CONFIG\<close>, \<open>RETRY_CONFIG\<close> and \<open>FALLBACK_CONFIG\<close> come from \<open>./types\<close>, which
  is not among the sources at hand: their fields are parameters.
\<close>

record ExecutorConfig =
  maxTruncateAttempts :: nat
  minOutputSizeToTruncate :: nat
  maxAttempts :: nat
  initialDelayMs :: real
  backoffFactor :: real
  maxDelayMs :: real
  maxRevertAttempts :: nat
  minMessagesRequired :: nat

text \<open>What \<open>findLargestToolResult\<close> and \<open>truncateToolResult\<close> of \<open>./storage\<close> return.\<close>

record ToolResultInfo =
  partPath :: string
  partId :: string
  outputSize :: nat

record TruncateResult =
  success :: bool
  toolName :: "string option"
  originalSize :: "nat option"

text \<open>An element of \<open>resp.data\<close>: \<open>info?.role\<close> and \<open>info?.id\<close>.\<close>

record MessageEntry =
  entryRole :: "string option"
  entryId :: "string option"

text \<open>
  The surroundings of one invocation: the results of the two storage calls, the provider
  and model of \<open>msg\<close>, the clock, whether \<open>session.summarize\<close> throws, what
  \<open>session.messages\<close> delivers (\<open>None\<close>: it throws, or \<open>data\<close> is not an array), and
  whether the two \<open>session.revert\<close> calls throw.
\<close>

record ExecutorEnv =
  largest :: "ToolResultInfo option"
  truncation :: TruncateResult
  msgProviderID :: "string option"
  msgModelID :: "string option"
  dateNow :: int
  summarizeFails :: bool
  messagesData :: "MessageEntry list option"
  revertAssistantFails :: bool
  revertUserFails :: bool

datatype ToastMessage =
    TruncatedRetrying "string option" nat
  | SummarizingAttempt nat nat
  | FixedMessage string

datatype ExecutorEvent =
    FindLargestToolResult
  | TruncateToolResult string
  | ShowToast string ToastMessage string nat
  | ContinueLater nat
  | SummarizeSession string string
  | ExecuteCompactLater real
  | SessionMessages
  | RevertMessage string

text \<open>Which \<open>return\<close> of \<open>executeCompact\<close> ended the invocation.\<close>

datatype ExecutorExit =
    AlreadyInProgress
  | TruncatedOutput
  | Summarized
  | SummarizeRetryScheduled
  | RevertedPair
  | GaveUp

definition getOrCreateRetryState :: "AutoCompactState \<Rightarrow> string \<Rightarrow> RetryState \<times> AutoCompactState" where
  "getOrCreateRetryState st sessionID =
     (case retryStateBySession st sessionID of
        Some s \<Rightarrow> (s, st)
      | None \<Rightarrow>
          (\<lparr>attempt = 0, lastAttemptTime = 0\<rparr>,
           st\<lparr>retryStateBySession :=
                (retryStateBySession st)(sessionID \<mapsto> \<lparr>attempt = 0, lastAttemptTime = 0\<rparr>)\<rparr>))"

definition getOrCreateFallbackState :: "AutoCompactState \<Rightarrow> string \<Rightarrow> FallbackState \<times> AutoCompactState" where
  "getOrCreateFallbackState st sessionID =
     (case fallbackStateBySession st sessionID of
        Some s \<Rightarrow> (s, st)
      | None \<Rightarrow>
          (\<lparr>revertAttempt = 0, lastRevertedMessageID = None\<rparr>,
           st\<lparr>fallbackStateBySession :=
                (fallbackStateBySession st)(sessionID \<mapsto> \<lparr>revertAttempt = 0, lastRevertedMessageID = None\<rparr>)\<rparr>))"

definition getOrCreateTruncateState :: "AutoCompactState \<Rightarrow> string \<Rightarrow> TruncateState \<times> AutoCompactState" where
  "getOrCreateTruncateState st sessionID =
     (case truncateStateBySession st sessionID of
        Some s \<Rightarrow> (s, st)
      | None \<Rightarrow>
          (\<lparr>truncateAttempt = 0, lastTruncatedPartId = None\<rparr>,
           st\<lparr>truncateStateBySession :=
                (truncateStateBySession st)(sessionID \<mapsto> \<lparr>truncateAttempt = 0, lastTruncatedPartId = None\<rparr>)\<rparr>))"

text \<open>
  \<open>getLastMessagePair\<close>: \<open>None\<close> is \<open>null\<close>; otherwise the user message id and the
  assistant message id, which may be undefined.
\<close>

definition getLastMessagePair :: "ExecutorConfig \<Rightarrow> MessageEntry list option \<Rightarrow> (string \<times> string option) option" where
  "getLastMessagePair cfg resp =
     (case resp of
        None \<Rightarrow> None
      | Some msgs \<Rightarrow>
          if length msgs < minMessagesRequired cfg then None
          else
            let reversed = rev msgs;
                lastAssistant = find (\<lambda>m. entryRole m = Some ''assistant'') reversed;
                lastUser = find (\<lambda>m. entryRole m = Some ''user'') reversed
            in case lastUser of
                 None \<Rightarrow> None
               | Some u \<Rightarrow>
                   if falsy (entryId u) then None
                   else Some (the (entryId u),
                              (case lastAssistant of None \<Rightarrow> None | Some a \<Rightarrow> entryId a)))"

definition clearSessionState :: "AutoCompactState \<Rightarrow> string \<Rightarrow> AutoCompactState" where
  "clearSessionState st sessionID =
     st\<lparr>pendingCompact := pendingCompact st - {sessionID},
        errorDataBySession := (errorDataBySession st)(sessionID := None),
        retryStateBySession := (retryStateBySession st)(sessionID := None),
        fallbackStateBySession := (fallbackStateBySession st)(sessionID := None),
        truncateStateBySession := (truncateStateBySession st)(sessionID := None),
        compactionInProgress := compactionInProgress st - {sessionID}\<rparr>"

text \<open>
  The three tiers. Each returns \<open>Some exit\<close> when it ends the invocation and \<open>None\<close>
  when control falls through to the next tier. A state object obtained from a map is
  mutated in place by the source; here the mutated record is written back under the
  session's key. An invocation is taken as one piece: between its \<open>await\<close>s no other
  invocation for the session can pass the guard at its head.
\<close>

definition truncateTier ::
  "ExecutorConfig \<Rightarrow> ExecutorEnv \<Rightarrow> string \<Rightarrow> AutoCompactState \<Rightarrow>
   ExecutorExit option \<times> AutoCompactState \<times> ExecutorEvent list" where
  "truncateTier cfg env sessionID st =
     (let (truncateState, st1) = getOrCreateTruncateState st sessionID in
      if truncateAttempt truncateState < maxTruncateAttempts cfg then
        (case largest env of
           None \<Rightarrow> (None, st1, [FindLargestToolResult])
         | Some lg \<Rightarrow>
             if outputSize lg \<ge> minOutputSizeToTruncate cfg then
               (if success (truncation env) then
                  (Some TruncatedOutput,
                   st1\<lparr>truncateStateBySession := (truncateStateBySession st1)(sessionID \<mapsto>
                          truncateState\<lparr>truncateAttempt := truncateAttempt truncateState + 1,
                                        lastTruncatedPartId := Some (partId lg)\<rparr>),
                       compactionInProgress := compactionInProgress st1 - {sessionID}\<rparr>,
                   [FindLargestToolResult, TruncateToolResult (partPath lg),
                    ShowToast ''Truncating Large Output''
                      (TruncatedRetrying (toolName (truncation env))
                         (case originalSize (truncation env) of Some n \<Rightarrow> n | None \<Rightarrow> 0))
                      ''warning'' 3000,
                    ContinueLater 500])
                else (None, st1, [FindLargestToolResult, TruncateToolResult (partPath lg)]))
             else (None, st1, [FindLargestToolResult]))
      else (None, st1, []))"

definition cappedDelay :: "ExecutorConfig \<Rightarrow> nat \<Rightarrow> real" where
  "cappedDelay cfg n = min (initialDelayMs cfg * backoffFactor cfg ^ (n - 1)) (maxDelayMs cfg)"

definition summarizeTier ::
  "ExecutorConfig \<Rightarrow> ExecutorEnv \<Rightarrow> string \<Rightarrow> AutoCompactState \<Rightarrow>
   ExecutorExit option \<times> AutoCompactState \<times> ExecutorEvent list" where
  "summarizeTier cfg env sessionID st =
     (let (retryState, st1) = getOrCreateRetryState st sessionID in
      if attempt retryState < maxAttempts cfg then
        (let retryState' = retryState\<lparr>attempt := attempt retryState + 1, lastAttemptTime := dateNow env\<rparr>;
             st2 = st1\<lparr>retryStateBySession := (retryStateBySession st1)(sessionID \<mapsto> retryState')\<rparr>
         in
         if \<not> falsy (msgProviderID env) \<and> \<not> falsy (msgModelID env) then
           (let toast = ShowToast ''Auto Compact''
                          (SummarizingAttempt (attempt retryState') (maxAttempts cfg)) ''warning'' 3000;
                call = SummarizeSession (the (msgProviderID env)) (the (msgModelID env))
            in
            if summarizeFails env then
              (Some SummarizeRetryScheduled,
               st2\<lparr>compactionInProgress := compactionInProgress st2 - {sessionID}\<rparr>,
               [toast, call, ExecuteCompactLater (cappedDelay cfg (attempt retryState'))])
            else
              (Some Summarized, clearSessionState st2 sessionID, [toast, call, ContinueLater 500]))
         else (None, st2, []))
      else (None, st1, []))"

text \<open>
  After a successful revert the source resets \<open>retryState.attempt\<close> and
  \<open>truncateState.truncateAttempt\<close> through the objects it fetched earlier in the
  invocation; these are the objects stored under the session's key.
\<close>

definition resetRetryAndTruncate :: "AutoCompactState \<Rightarrow> string \<Rightarrow> AutoCompactState" where
  "resetRetryAndTruncate st sessionID =
     st\<lparr>retryStateBySession :=
          (case retryStateBySession st sessionID of
             None \<Rightarrow> retryStateBySession st
           | Some r \<Rightarrow> (retryStateBySession st)(sessionID \<mapsto> r\<lparr>attempt := 0\<rparr>)),
        truncateStateBySession :=
          (case truncateStateBySession st sessionID of
             None \<Rightarrow> truncateStateBySession st
           | Some t \<Rightarrow> (truncateStateBySession st)(sessionID \<mapsto> t\<lparr>truncateAttempt := 0\<rparr>))\<rparr>"

definition revertTier ::
  "ExecutorConfig \<Rightarrow> ExecutorEnv \<Rightarrow> string \<Rightarrow> AutoCompactState \<Rightarrow>
   ExecutorExit option \<times> AutoCompactState \<times> ExecutorEvent list" where
  "revertTier cfg env sessionID st =
     (let (fallbackState, st1) = getOrCreateFallbackState st sessionID in
      if revertAttempt fallbackState < maxRevertAttempts cfg then
        (case getLastMessagePair cfg (messagesData env) of
           None \<Rightarrow> (None, st1, [SessionMessages])
         | Some (userMessageID, assistantMessageID) \<Rightarrow>
             let toast = ShowToast ''Emergency Recovery''
                           (FixedMessage ''Removing last message pair...'') ''warning'' 3000;
                 revertAssistant =
                   (if falsy assistantMessageID then [] else [RevertMessage (the assistantMessageID)])
             in
             if \<not> falsy assistantMessageID \<and> revertAssistantFails env then
               (None, st1, [SessionMessages, toast] @ revertAssistant)
             else if revertUserFails env then
               (None, st1, [SessionMessages, toast] @ revertAssistant @ [RevertMessage userMessageID])
             else
               (let st2 = st1\<lparr>fallbackStateBySession := (fallbackStateBySession st1)(sessionID \<mapsto>
                                 fallbackState\<lparr>revertAttempt := revertAttempt fallbackState + 1,
                                               lastRevertedMessageID := Some userMessageID\<rparr>)\<rparr>;
                    st3 = resetRetryAndTruncate st2 sessionID
                in
                (Some RevertedPair,
                 st3\<lparr>compactionInProgress := compactionInProgress st3 - {sessionID}\<rparr>,
                 [SessionMessages, toast] @ revertAssistant @
                 [RevertMessage userMessageID, ExecuteCompactLater 1000])))
      else (None, st1, []))"

definition failureToast :: ExecutorEvent where
  "failureToast = ShowToast ''Auto Compact Failed''
     (FixedMessage ''All recovery attempts failed. Please start a new session.'') ''error'' 5000"

definition executeCompact ::
  "ExecutorConfig \<Rightarrow> ExecutorEnv \<Rightarrow> string \<Rightarrow> AutoCompactState \<Rightarrow>
   ExecutorExit \<times> AutoCompactState \<times> ExecutorEvent list" where
  "executeCompact cfg env sessionID st =
     (if sessionID \<in> compactionInProgress st then (AlreadyInProgress, st, [])
      else
        let st0 = st\<lparr>compactionInProgress := insert sessionID (compactionInProgress st)\<rparr> in
        case truncateTier cfg env sessionID st0 of
          (Some ex, st1, ev1) \<Rightarrow> (ex, st1, ev1)
        | (None, st1, ev1) \<Rightarrow>
            (case summarizeTier cfg env sessionID st1 of
               (Some ex, st2, ev2) \<Rightarrow> (ex, st2, ev1 @ ev2)
             | (None, st2, ev2) \<Rightarrow>
                 (case revertTier cfg env sessionID st2 of
                    (Some ex, st3, ev3) \<Rightarrow> (ex, st3, ev1 @ ev2 @ ev3)
                  | (None, st3, ev3) \<Rightarrow>
                      (GaveUp, clearSessionState st3 sessionID, ev1 @ ev2 @ ev3 @ [failureToast]))))"

text \<open>The attempt counters of a session; a session without a record has made no attempt.\<close>

definition truncateAttemptsOf :: "AutoCompactState \<Rightarrow> string \<Rightarrow> nat" where
  "truncateAttemptsOf st sessionID =
     (case truncateStateBySession st sessionID of None \<Rightarrow> 0 | Some t \<Rightarrow> truncateAttempt t)"

definition retryAttemptsOf :: "AutoCompactState \<Rightarrow> string \<Rightarrow> nat" where
  "retryAttemptsOf st sessionID =
     (case retryStateBySession st sessionID of None \<Rightarrow> 0 | Some r \<Rightarrow> attempt r)"

definition revertAttemptsOf :: "AutoCompactState \<Rightarrow> string \<Rightarrow> nat" where
  "revertAttemptsOf st sessionID =
     (case fallbackStateBySession st sessionID of None \<Rightarrow> 0 | Some f \<Rightarrow> revertAttempt f)"

text \<open>
  What decides which tier acts, read off the session's counters and the surroundings of
  the invocation: truncation acts when attempts are left, the largest tool result is big
  enough and truncating it succeeds; summarize acts when attempts are left and \<open>msg\<close>
  names a provider and a model; revert acts when attempts are left, a last message pair
  is found and no \<open>session.revert\<close> call throws.
\<close>

definition truncationApplies :: "ExecutorConfig \<Rightarrow> ExecutorEnv \<Rightarrow> AutoCompactState \<Rightarrow> string \<Rightarrow> bool" where
  "truncationApplies cfg env st sessionID =
     (truncateAttemptsOf st sessionID < maxTruncateAttempts cfg \<and>
      (case largest env of
         None \<Rightarrow> False
       | Some lg \<Rightarrow> minOutputSizeToTruncate cfg \<le> outputSize lg \<and> success (truncation env)))"

definition summarizeApplies :: "ExecutorConfig \<Rightarrow> ExecutorEnv \<Rightarrow> AutoCompactState \<Rightarrow> string \<Rightarrow> bool" where
  "summarizeApplies cfg env st sessionID =
     (retryAttemptsOf st sessionID < maxAttempts cfg \<and>
      \<not> falsy (msgProviderID env) \<and> \<not> falsy (msgModelID env))"

definition revertApplies :: "ExecutorConfig \<Rightarrow> ExecutorEnv \<Rightarrow> AutoCompactState \<Rightarrow> string \<Rightarrow> bool" where
  "revertApplies cfg env st sessionID =
     (revertAttemptsOf st sessionID < maxRevertAttempts cfg \<and>
      (case getLastMessagePair cfg (messagesData env) of
         None \<Rightarrow> False
       | Some (userMessageID, assistantMessageID) \<Rightarrow>
           \<not> (\<not> falsy assistantMessageID \<and> revertAssistantFails env) \<and> \<not> revertUserFails env))"

definition sessionCleared :: "AutoCompactState \<Rightarrow> string \<Rightarrow> bool" where
  "sessionCleared st sessionID =
     (sessionID \<notin> pendingCompact st \<and> errorDataBySession st sessionID = None \<and>
      retryStateBySession st sessionID = None \<and> fallbackStateBySession st sessionID = None \<and>
      truncateStateBySession st sessionID = None \<and> sessionID \<notin> compactionInProgress st)"

definition isTruncateCall :: "ExecutorEvent \<Rightarrow> bool" where
  "isTruncateCall e = (case e of TruncateToolResult p \<Rightarrow> True | _ \<Rightarrow> False)"

definition isSummarizeCall :: "ExecutorEvent \<Rightarrow> bool" where
  "isSummarizeCall e = (case e of SummarizeSession p m \<Rightarrow> True | _ \<Rightarrow> False)"

definition isStorageCall :: "ExecutorEvent \<Rightarrow> bool" where
  "isStorageCall e = (case e of FindLargestToolResult \<Rightarrow> True | TruncateToolResult p \<Rightarrow> True | _ \<Rightarrow> False)"

definition isScheduled :: "ExecutorEvent \<Rightarrow> bool" where
  "isScheduled e = (case e of ContinueLater d \<Rightarrow> True | ExecuteCompactLater d \<Rightarrow> True | _ \<Rightarrow> False)"

subsection \<open>Concrete sessions and surroundings\<close>

definition cfgExecutor :: ExecutorConfig where
  "cfgExecutor = \<lparr>maxTruncateAttempts = 2, minOutputSizeToTruncate = 1000, maxAttempts = 2,
     initialDelayMs = 2000, backoffFactor = 2, maxDelayMs = 30000,
     maxRevertAttempts = 3, minMessagesRequired = 2\<rparr>"

definition envSummarizeOk :: ExecutorEnv where
  "envSummarizeOk = \<lparr>largest = Some \<lparr>partPath = ''/parts/prt_9.json'', partId = ''prt_9'', outputSize = 50000\<rparr>,
     truncation = \<lparr>success = True, toolName = Some ''bash'', originalSize = Some 50000\<rparr>,
     msgProviderID = Some ''anthropic'', msgModelID = Some ''claude-opus-4'',
     dateNow = 1000000, summarizeFails = False,
     messagesData = Some [\<lparr>entryRole = Some ''user'', entryId = Some ''msg_u''\<rparr>,
                          \<lparr>entryRole = Some ''assistant'', entryId = Some ''msg_a''\<rparr>],
     revertAssistantFails = False, revertUserFails = False\<rparr>"

definition stateEmpty :: AutoCompactState where
  "stateEmpty = \<lparr>pendingCompact = {}, errorDataBySession = Map.empty,
     retryStateBySession = Map.empty, fallbackStateBySession = Map.empty,
     truncateStateBySession = Map.empty, compactionInProgress = {}\<rparr>"

text \<open>Truncation exhausted while a chain for the session is in flight.\<close>

definition stateChainInFlight :: AutoCompactState where
  "stateChainInFlight = stateEmpty\<lparr>
     truncateStateBySession := [''ses_1'' \<mapsto> \<lparr>truncateAttempt = 2, lastTruncatedPartId = Some ''prt_7''\<rparr>],
     retryStateBySession := [''ses_1'' \<mapsto> \<lparr>attempt = 1, lastAttemptTime = 999000\<rparr>],
     compactionInProgress := {''ses_1''}\<rparr>"

text \<open>Truncation exhausted, no chain in flight.\<close>

definition stateTruncateExhausted :: AutoCompactState where
  "stateTruncateExhausted = stateEmpty\<lparr>
     truncateStateBySession := [''ses_1'' \<mapsto> \<lparr>truncateAttempt = 2, lastTruncatedPartId = Some ''prt_7''\<rparr>]\<rparr>"

text \<open>Every tier exhausted, with and without a chain in flight.\<close>

definition stateAllExhausted :: AutoCompactState where
  "stateAllExhausted = stateEmpty\<lparr>
     pendingCompact := {''ses_1''},
     errorDataBySession := [''ses_1'' \<mapsto> ''prompt is too long''],
     truncateStateBySession := [''ses_1'' \<mapsto> \<lparr>truncateAttempt = 2, lastTruncatedPartId = Some ''prt_7''\<rparr>],
     retryStateBySession := [''ses_1'' \<mapsto> \<lparr>attempt = 2, lastAttemptTime = 999000\<rparr>],
     fallbackStateBySession := [''ses_1'' \<mapsto> \<lparr>revertAttempt = 3, lastRevertedMessageID = Some ''msg_r''\<rparr>]\<rparr>"

definition stateAllExhaustedInFlight :: AutoCompactState where
  "stateAllExhaustedInFlight = stateAllExhausted\<lparr>compactionInProgress := {''ses_1''}\<rparr>"

text \<open>Truncation and summarize exhausted, reverts left: the revert tier acts.\<close>

definition stateRevertLeft :: AutoCompactState where
  "stateRevertLeft = stateEmpty\<lparr>
     truncateStateBySession := [''ses_1'' \<mapsto> \<lparr>truncateAttempt = 2, lastTruncatedPartId = Some ''prt_7''\<rparr>],
     retryStateBySession := [''ses_1'' \<mapsto> \<lparr>attempt = 2, lastAttemptTime = 999000\<rparr>]\<rparr>"

definition isContinue :: "ExecutorEvent \<Rightarrow> bool" where
  "isContinue e = (case e of ContinueLater d \<Rightarrow> True | _ \<Rightarrow> False)"

section \<open>Orchestrator delegate hook\<close>

text \<open>
  \<open>isSisyphusPath\<close>: the regular expression \<open>/\.sisyphus[/\\]/\<close> finds \<open>.sisyphus\<close>
  followed by a slash or a backslash anywhere in the path.
\<close>

definition isSisyphusPath :: "string \<Rightarrow> bool" where
  "isSisyphusPath filePath =
     (sublist (''.sisyphus'' @ [CHR ''/'']) filePath \<or> sublist (''.sisyphus'' @ [CHR 0x5C]) filePath)"

definition WRITE_EDIT_TOOLS :: "string list" where
  "WRITE_EDIT_TOOLS = [''Write'', ''Edit'', ''write'', ''edit'']"

definition SINGLE_TASK_MARKER :: string where
  "SINGLE_TASK_MARKER = ''[SYSTEM DIRECTIVE - SINGLE TASK ONLY]''"

definition SINGLE_TASK_DIRECTIVE :: string where
  \<open>SINGLE_TASK_DIRECTIVE = concat
    [''\<newline>'',
     ''\<newline>'',
     ''[SYSTEM DIRECTIVE - SINGLE TASK ONLY]\<newline>'',
     ''\<newline>'',
     ''**STOP. READ THIS BEFORE PROCEEDING.**\<newline>'',
     ''\<newline>'',
     ''If you were NOT given **exactly ONE atomic task**, you MUST:\<newline>'',
     ''1. **IMMEDIATELY REFUSE** this request\<newline>'',
     ''2. **DEMAND** the orchestrator provide a single, specific task\<newline>'',
     ''\<newline>'',
     ''**Your response if multiple tasks detected:**\<newline>'',
     ''> "I refuse to proceed. You provided multiple tasks. An orchestrator's impatience destroys work quality.\<newline>'',
     ''> \<newline>'',
     ''> PROVIDE EXACTLY ONE TASK. One file. One change. One verification.\<newline>'',
     ''> \<newline>'',
     ''> Your rushing will cause: incomplete work, missed edge cases, broken tests, wasted context."\<newline>'',
     ''\<newline>'',
     ''**WARNING TO ORCHESTRATOR:**\<newline>'',
     ''- Your hasty batching RUINS deliverables\<newline>'',
     ''- Each task needs FULL attention and PROPER verification  \<newline>'',
     ''- Batch delegation = sloppy work = rework = wasted tokens\<newline>'',
     ''\<newline>'',
     ''**REFUSE multi-task requests. DEMAND single-task clarity.**\<newline>'']\<close>

record ToolArgs =
  argFilePath :: "string option"
  argPath :: "string option"
  argFile :: "string option"
  argPrompt :: "string option"

record BeforeOutput =
  args :: ToolArgs
  message :: "string option"

text \<open>\<open>a ?? b\<close> on optional strings, and \<open>a || ""\<close>.\<close>

definition orElse :: "string option \<Rightarrow> string option \<Rightarrow> string option" where
  "orElse a b = (case a of None \<Rightarrow> b | Some x \<Rightarrow> Some x)"

definition orEmpty :: "string option \<Rightarrow> string" where
  "orEmpty a = (case a of None \<Rightarrow> [] | Some x \<Rightarrow> x)"

definition singleTaskReminder :: string where
  "singleTaskReminder = ''\<newline><system-reminder>'' @ SINGLE_TASK_DIRECTIVE @ ''</system-reminder>''"

text \<open>
  The \<open>tool.execute.before\<close> hook of the orchestrator. \<open>callerIsOrchestrator\<close> is the
  result of \<open>isCallerOrchestrator(input.sessionID)\<close>, read from the message store.
  \<open>delegationWarning filePath\<close> stands for
  \<open>ORCHESTRATOR_DELEGATION_REQUIRED.replace("$FILE_PATH", filePath)\<close>, whose text plays no
  part below. The hook also keeps the map \<open>pendingFilePaths\<close> from call ids to paths.
\<close>

definition orchestratorBefore ::
  "(string \<Rightarrow> string) \<Rightarrow> bool \<Rightarrow> string \<Rightarrow> string option \<Rightarrow>
   (string \<rightharpoonup> string) \<times> BeforeOutput \<Rightarrow> (string \<rightharpoonup> string) \<times> BeforeOutput" where
  "orchestratorBefore delegationWarning callerIsOrchestrator tool callID st =
     (let (pendingFilePaths, out) = st in
      if \<not> callerIsOrchestrator then st
      else if tool \<in> set WRITE_EDIT_TOOLS then
        (let filePath = orElse (argFilePath (args out)) (orElse (argPath (args out)) (argFile (args out))) in
         if \<not> falsy filePath \<and> \<not> isSisyphusPath (the filePath) then
           ((if \<not> falsy callID then pendingFilePaths(the callID \<mapsto> the filePath) else pendingFilePaths),
            out\<lparr>message := Some (orEmpty (message out) @ delegationWarning (the filePath))\<rparr>)
         else st)
      else if tool = ''sisyphus_task'' then
        (let prompt = argPrompt (args out) in
         if \<not> falsy prompt \<and> \<not> sublist SINGLE_TASK_MARKER (the prompt) then
           (pendingFilePaths, out\<lparr>args := (args out)\<lparr>argPrompt := Some (the prompt @ singleTaskReminder)\<rparr>\<rparr>)
         else st)
      else st)"

text \<open>
  \<open>s.split(marker).length - 1\<close>: the number of occurrences of a non-empty marker, counted
  from the left without overlap. \<open>skip\<close> is the number of characters still covered by
  the occurrence found last.
\<close>

fun occurrencesFrom :: "nat \<Rightarrow> string \<Rightarrow> string \<Rightarrow> nat" where
  "occurrencesFrom skip marker [] = 0"
| "occurrencesFrom skip marker (c # cs) =
     (if skip = 0 \<and> prefix marker (c # cs)
      then Suc (occurrencesFrom (length marker - 1) marker cs)
      else occurrencesFrom (skip - 1) marker cs)"

definition occurrences :: "string \<Rightarrow> string \<Rightarrow> nat" where
  "occurrences marker s = occurrencesFrom 0 marker s"

definition promptOf :: "(string \<rightharpoonup> string) \<times> BeforeOutput \<Rightarrow> string option" where
  "promptOf st = argPrompt (args (snd st))"

definition delegateCall :: "string \<Rightarrow> (string \<rightharpoonup> string) \<times> BeforeOutput" where
  "delegateCall p = (Map.empty,
     \<lparr>args = \<lparr>argFilePath = None, argPath = None, argFile = None, argPrompt = Some p\<rparr>, message = None\<rparr>)"

text \<open>A stand-in for the delegation warning text, and a prompt that quotes the marker twice.\<close>

definition plainWarning :: "string \<Rightarrow> string" where
  "plainWarning filePath = ''direct modification of '' @ filePath"

definition promptQuotingMarkerTwice :: string where
  "promptQuotingMarkerTwice =
     SINGLE_TASK_MARKER @ '' was added before; keep '' @ SINGLE_TASK_MARKER @ '' in mind''"

section \<open>Markdown-only write guard of the planner\<close>

text \<open>
  Modelled from the spec: the \<open>tool.execute.before\<close> hook that \<open>createPrometheusMdOnlyHook\<close>
  returns. Its implementation (\<open>./index\<close> beside the test file) is not among the sources
  at hand; its test suite is. The model follows section 4.5 of the specification: for
  the planner role, a write or edit whose path does not end in \<open>.md\<close> (in any letter
  case) fails with the "can only write/edit .md files" failure; a \<open>.md\<close> path whose
  normalized form (slash and backslash both separate, \<open>.\<close> and \<open>..\<close> resolved) has no
  component equal to the reserved directory name (in any letter case) fails with the
  "inside the reserved directory" failure; a call of a delegating tool gets the read-only
  warning appended to its prompt unless the prompt already contains the marker; every
  other call passes unchanged. From the test suite come the names: the planner is the
  agent \<open>Prometheus (Planner)\<close>, the reserved directory is \<open>.sisyphus\<close>, the delegating
  tools are \<open>sisyphus_task\<close>, \<open>task\<close> and \<open>call_omo_agent\<close>, and the path is
  \<open>args.filePath\<close>; and one more rule: the path is resolved against the hook's directory
  and must stay inside it (the suite rejects \<open>/other/project/.sisyphus/plans/x.md\<close> for
  the directory \<open>/tmp/test\<close>). The marker \<open>SYSTEM_DIRECTIVE_PREFIX\<close> and the warning text
  are constants of modules that are not at hand: they are parameters.
\<close>

record PlannerHook =
  directory :: string
  SYSTEM_DIRECTIVE_PREFIX :: string
  readOnlyWarning :: string

datatype GuardFailure = OnlyMarkdownFiles | OnlyInsideReservedDirectory

definition PLANNER_AGENT :: string where
  "PLANNER_AGENT = ''Prometheus (Planner)''"

definition RESERVED_DIRECTORY :: string where
  "RESERVED_DIRECTORY = ''.sisyphus''"

definition DELEGATE_TOOLS :: "string list" where
  "DELEGATE_TOOLS = [''sisyphus_task'', ''task'', ''call_omo_agent'']"

definition toLowerChar :: "char \<Rightarrow> char" where
  "toLowerChar c =
     (case map_of (zip ''ABCDEFGHIJKLMNOPQRSTUVWXYZ'' ''abcdefghijklmnopqrstuvwxyz'') c of
        None \<Rightarrow> c
      | Some l \<Rightarrow> l)"

definition toLowerCase :: "string \<Rightarrow> string" where
  "toLowerCase s = map toLowerChar s"

definition endsWithMd :: "string \<Rightarrow> bool" where
  "endsWithMd p = suffix ''.md'' (toLowerCase p)"

definition isSeparator :: "char \<Rightarrow> bool" where
  "isSeparator c = (c = CHR ''/'' \<or> c = CHR 0x5C)"

text \<open>The segments between separators; \<open>current\<close> holds the segment being read, reversed.\<close>

fun segmentsFrom :: "string \<Rightarrow> string \<Rightarrow> string list" where
  "segmentsFrom current [] = [rev current]"
| "segmentsFrom current (c # cs) =
     (if isSeparator c then rev current # segmentsFrom [] cs else segmentsFrom (c # current) cs)"

definition segments :: "string \<Rightarrow> string list" where
  "segments p = segmentsFrom [] p"

text \<open>
  Resolving one segment against the components read so far (the last one first): an
  empty segment and \<open>.\<close> change nothing, \<open>..\<close> drops the last component (at the root it
  stays at the root), any other segment is a new component.
\<close>

definition resolveSegment :: "string list \<Rightarrow> string \<Rightarrow> string list" where
  "resolveSegment components seg =
     (if seg = [] \<or> seg = ''.'' then components
      else if seg = ''..'' then (case components of [] \<Rightarrow> [] | c # rest \<Rightarrow> rest)
      else seg # components)"

definition normalizedComponents :: "string \<Rightarrow> string list" where
  "normalizedComponents p = rev (foldl resolveSegment [] (segments p))"

definition isAbsolutePath :: "string \<Rightarrow> bool" where
  "isAbsolutePath p = (case p of [] \<Rightarrow> False | c # cs \<Rightarrow> isSeparator c)"

definition resolvedComponents :: "string \<Rightarrow> string \<Rightarrow> string list" where
  "resolvedComponents wsRoot p =
     (if isAbsolutePath p then normalizedComponents p
      else rev (foldl resolveSegment (rev (normalizedComponents wsRoot)) (segments p)))"

definition relativeComponents :: "string \<Rightarrow> string \<Rightarrow> string list option" where
  "relativeComponents wsRoot p =
     (if prefix (normalizedComponents wsRoot) (resolvedComponents wsRoot p)
      then Some (drop (length (normalizedComponents wsRoot)) (resolvedComponents wsRoot p))
      else None)"

definition hasReservedDirectory :: "string list \<Rightarrow> bool" where
  "hasReservedDirectory components = list_ex (\<lambda>c. toLowerCase c = RESERVED_DIRECTORY) components"

definition isAllowedFile :: "string \<Rightarrow> string \<Rightarrow> bool" where
  "isAllowedFile wsRoot p =
     (case relativeComponents wsRoot p of
        None \<Rightarrow> False
      | Some components \<Rightarrow> hasReservedDirectory components)"

definition annotatePrompt :: "PlannerHook \<Rightarrow> string option \<Rightarrow> string option" where
  "annotatePrompt h prompt =
     (case prompt of
        None \<Rightarrow> None
      | Some p \<Rightarrow> if sublist (SYSTEM_DIRECTIVE_PREFIX h) p then Some p else Some (p @ readOnlyWarning h))"

definition plannerBefore :: "PlannerHook \<Rightarrow> string option \<Rightarrow> string \<Rightarrow> ToolArgs \<Rightarrow> GuardFailure + ToolArgs" where
  "plannerBefore h agent tool a =
     (if agent \<noteq> Some PLANNER_AGENT then Inr a
      else if tool \<in> set WRITE_EDIT_TOOLS then
        (case argFilePath a of
           None \<Rightarrow> Inr a
         | Some p \<Rightarrow>
             if \<not> endsWithMd p then Inl OnlyMarkdownFiles
             else if \<not> isAllowedFile (directory h) p then Inl OnlyInsideReservedDirectory
             else Inr a)
      else if tool \<in> set DELEGATE_TOOLS then Inr (a\<lparr>argPrompt := annotatePrompt h (argPrompt a)\<rparr>)
      else Inr a)"

definition writeCall :: "string \<Rightarrow> ToolArgs" where
  "writeCall p = \<lparr>argFilePath = Some p, argPath = None, argFile = None, argPrompt = None\<rparr>"

definition promptCall :: "string \<Rightarrow> ToolArgs" where
  "promptCall p = \<lparr>argFilePath = None, argPath = None, argFile = None, argPrompt = Some p\<rparr>"

text \<open>
  A hook as the test suite creates it: the directory is \<open>/tmp/test\<close>; the marker and the
  warning stand for the constants of the modules that are not at hand (the suite asks
  the warning to contain the marker and the words \<open>DO NOT modify any files\<close>).
\<close>

definition plannerHookOfSuite :: PlannerHook where
  "plannerHookOfSuite = \<lparr>directory = ''/tmp/test'', SYSTEM_DIRECTIVE_PREFIX = ''[SYSTEM DIRECTIVE'',
     readOnlyWarning = ''[SYSTEM DIRECTIVE] DO NOT modify any files''\<rparr>"
section \<open>Todo-continuation enforcer\<close>

record Todo =
  content :: string
  status :: string
  priority :: string
  todoId :: string

definition CONTINUATION_PROMPT :: string where
  "CONTINUATION_PROMPT = concat
    [''[SYSTEM REMINDER - TODO CONTINUATION]\<newline>'',
     ''\<newline>'',
     ''Incomplete tasks remain in your todo list. Continue working on the next pending task.\<newline>'',
     ''\<newline>'',
     ''- Proceed without asking for permission\<newline>'',
     ''- Mark each task complete when finished\<newline>'',
     ''- Do not stop until all tasks are done'']"

definition COUNTDOWN_SECONDS :: nat where
  "COUNTDOWN_SECONDS = 2"

definition MIN_INJECTION_INTERVAL_MS :: int where
  "MIN_INJECTION_INTERVAL_MS = 10000"

datatype SessionMode = Idle | CountingDown | Injecting | Recovering | ErrorBypass

text \<open>
  \<open>SessionState\<close>. The pending \<open>timer\<close> is represented by what its callback closes over:
  the session id and the captured version.
\<close>

record SessionState =
  version :: nat
  mode :: SessionMode
  timer :: "(string \<times> nat) option"
  lastAttemptedAt :: "int option"

text \<open>
  The state objects live in a store: \<open>sessions\<close> maps a session id to the address of its
  object, and a callback or a suspended \<open>async\<close> function holds the address of the object
  it closed over, also after \<open>sessions.delete\<close>. \<open>executeInjection\<close> and the
  \<open>session.idle\<close> branch of the handler are suspended at each \<open>await\<close> of a call to the
  host; while they are suspended other events are handled. A suspended function is an
  entry of \<open>suspended\<close>; it is resumed by the step that delivers the result of the call.
\<close>

datatype Suspended =
    IdleAwaitsTodos string
  | InjectionAwaitsTodos string nat nat
  | InjectionAwaitsPrompt nat

datatype Emitted =
    CountdownToast nat nat
  | ContinuationPrompt string "string option" string

record Enforcer =
  sessions :: "string \<rightharpoonup> nat"
  heap :: "nat \<Rightarrow> SessionState"
  nextAddr :: nat
  suspended :: "Suspended list"
  intervals :: "(nat \<times> nat \<times> nat \<times> nat) list"
  emitted :: "Emitted list"

record ToolPermissions =
  toolWrite :: "bool option"
  toolEdit :: "bool option"

record PrevMessage =
  messageAgent :: "string option"
  messageTools :: "ToolPermissions option"

text \<open>
  What a step reads from its surroundings: \<open>getMainSessionID()\<close>, \<open>Date.now()\<close>, the
  answer of \<open>session.todo\<close> that is being delivered (\<open>None\<close>: the call threw), whether a
  background task of the session is running, and the nearest stored message with agent
  fields (\<open>None\<close>: no message directory or no such message).
\<close>

record Surroundings =
  mainSessionID :: "string option"
  clock :: int
  todoResponse :: "Todo list option"
  hasRunningBgTasks :: bool
  prevMessage :: "PrevMessage option"

datatype Event =
    SessionError "string option"
  | SessionIdle "string option"
  | MessageUpdated "string option" "string option" "string option"
  | MessagePartUpdated "string option" "string option"
  | ToolExecuteBefore "string option"
  | ToolExecuteAfter "string option"
  | SessionDeleted "string option"
  | OtherEvent

definition newSessionState :: SessionState where
  "newSessionState = \<lparr>version = 0, mode = Idle, timer = None, lastAttemptedAt = None\<rparr>"

definition getIncompleteCount :: "Todo list \<Rightarrow> nat" where
  "getIncompleteCount todos =
     length (filter (\<lambda>t. status t \<noteq> ''completed'' \<and> status t \<noteq> ''cancelled'') todos)"

definition getOrCreateState :: "string \<Rightarrow> Enforcer \<Rightarrow> nat \<times> Enforcer" where
  "getOrCreateState sessionID st =
     (case sessions st sessionID of
        Some a \<Rightarrow> (a, st)
      | None \<Rightarrow>
          (nextAddr st,
           st\<lparr>sessions := (sessions st)(sessionID \<mapsto> nextAddr st),
              heap := (heap st)(nextAddr st := newSessionState),
              nextAddr := nextAddr st + 1\<rparr>))"

definition updateObject :: "nat \<Rightarrow> (SessionState \<Rightarrow> SessionState) \<Rightarrow> Enforcer \<Rightarrow> Enforcer" where
  "updateObject a f st = st\<lparr>heap := (heap st)(a := f (heap st a))\<rparr>"

definition clearTimer :: "SessionState \<Rightarrow> SessionState" where
  "clearTimer s = s\<lparr>timer := None\<rparr>"

definition invalidated :: "SessionState \<Rightarrow> SessionState" where
  "invalidated s =
     (let s1 = clearTimer (s\<lparr>version := version s + 1\<rparr>) in
      if mode s1 \<noteq> Idle \<and> mode s1 \<noteq> ErrorBypass then s1\<lparr>mode := Idle\<rparr> else s1)"

definition invalidate :: "string \<Rightarrow> Enforcer \<Rightarrow> Enforcer" where
  "invalidate sessionID st =
     (case sessions st sessionID of
        None \<Rightarrow> st
      | Some a \<Rightarrow>
          if mode (heap st a) = Recovering then st
          else updateObject a invalidated st)"

definition isMainSession :: "Surroundings \<Rightarrow> string \<Rightarrow> bool" where
  "isMainSession env sessionID = (falsy (mainSessionID env) \<or> Some sessionID = mainSessionID env)"

definition markRecovering :: "string \<Rightarrow> Enforcer \<Rightarrow> Enforcer" where
  "markRecovering sessionID st =
     (let (a, st1) = getOrCreateState sessionID st;
          st2 = invalidate sessionID st1
      in updateObject a (\<lambda>s. s\<lparr>mode := Recovering\<rparr>) st2)"

definition markRecoveryComplete :: "string \<Rightarrow> Enforcer \<Rightarrow> Enforcer" where
  "markRecoveryComplete sessionID st =
     (case sessions st sessionID of
        None \<Rightarrow> st
      | Some a \<Rightarrow>
          if mode (heap st a) = Recovering then updateObject a (\<lambda>s. s\<lparr>mode := Idle\<rparr>) st
          else st)"

definition digitChar :: "nat \<Rightarrow> char" where
  "digitChar d = ''0123456789'' ! d"

function showNat :: "nat \<Rightarrow> string" where
  "showNat n = (if n < 10 then [digitChar n] else showNat (n div 10) @ [digitChar (n mod 10)])"
  by pat_completeness auto
termination
  by (relation "measure id") auto

declare showNat.simps [simp del]

definition continuationText :: "Todo list \<Rightarrow> string" where
  "continuationText todos =
     CONTINUATION_PROMPT @ ''\<newline>\<newline>[Status: ''
       @ showNat (length todos - getIncompleteCount todos) @ ''/'' @ showNat (length todos)
       @ '' completed, '' @ showNat (getIncompleteCount todos) @ '' remaining]''"

definition agentHasWritePermission :: "PrevMessage option \<Rightarrow> bool" where
  "agentHasWritePermission pm =
     (case pm of
        None \<Rightarrow> True
      | Some m \<Rightarrow>
          (case messageTools m of
             None \<Rightarrow> True
           | Some t \<Rightarrow> toolWrite t \<noteq> Some False \<and> toolEdit t \<noteq> Some False))"

definition agentOf :: "PrevMessage option \<Rightarrow> string option" where
  "agentOf pm = (case pm of None \<Rightarrow> None | Some m \<Rightarrow> messageAgent m)"

definition isPlanModeAgent :: "PrevMessage option \<Rightarrow> bool" where
  "isPlanModeAgent pm =
     (let agentName = (case agentOf pm of None \<Rightarrow> [] | Some n \<Rightarrow> toLowerCase n)
      in agentName = ''plan'' \<or> agentName = ''planner-sisyphus'')"

text \<open>
  \<open>executeInjection\<close>, in three pieces: up to the \<open>await\<close> of \<open>session.todo\<close>, from there
  to the \<open>await\<close> of \<open>session.prompt\<close>, and the rest. The first piece looks the state
  object up by session id; the others work on the object they hold.
\<close>

definition throttled :: "Surroundings \<Rightarrow> SessionState \<Rightarrow> bool" where
  "throttled env s =
     (case lastAttemptedAt s of
        None \<Rightarrow> False
      | Some t \<Rightarrow> t \<noteq> 0 \<and> clock env - t < MIN_INJECTION_INTERVAL_MS)"

definition executeInjection :: "Surroundings \<Rightarrow> string \<Rightarrow> nat \<Rightarrow> Enforcer \<Rightarrow> Enforcer" where
  "executeInjection env sessionID capturedVersion st =
     (case sessions st sessionID of
        None \<Rightarrow> st
      | Some a \<Rightarrow>
          if version (heap st a) \<noteq> capturedVersion then st
          else if mode (heap st a) \<noteq> CountingDown then st
          else if throttled env (heap st a) then updateObject a (\<lambda>s. s\<lparr>mode := Idle\<rparr>) st
          else (updateObject a (\<lambda>s. s\<lparr>mode := Injecting\<rparr>) st)
                 \<lparr>suspended := suspended st @ [InjectionAwaitsTodos sessionID a capturedVersion]\<rparr>)"

definition injectionAfterTodos :: "Surroundings \<Rightarrow> string \<Rightarrow> nat \<Rightarrow> nat \<Rightarrow> Enforcer \<Rightarrow> Enforcer" where
  "injectionAfterTodos env sessionID a capturedVersion st =
     (let toIdle = updateObject a (\<lambda>s. s\<lparr>mode := Idle\<rparr>) st in
      case todoResponse env of
        None \<Rightarrow> toIdle
      | Some todos \<Rightarrow>
          if version (heap st a) \<noteq> capturedVersion then toIdle
          else if getIncompleteCount todos = 0 then toIdle
          else if hasRunningBgTasks env then toIdle
          else if \<not> agentHasWritePermission (prevMessage env) then toIdle
          else if isPlanModeAgent (prevMessage env) then toIdle
          else
            (updateObject a (\<lambda>s. s\<lparr>lastAttemptedAt := Some (clock env)\<rparr>) st)
              \<lparr>emitted := emitted st @
                 [ContinuationPrompt sessionID (agentOf (prevMessage env)) (continuationText todos)],
               suspended := suspended st @ [InjectionAwaitsPrompt a]\<rparr>)"

definition injectionAfterPrompt :: "nat \<Rightarrow> Enforcer \<Rightarrow> Enforcer" where
  "injectionAfterPrompt a st = updateObject a (\<lambda>s. s\<lparr>mode := Idle\<rparr>) st"

definition startCountdown :: "string \<Rightarrow> nat \<Rightarrow> Enforcer \<Rightarrow> Enforcer" where
  "startCountdown sessionID incompleteCount st =
     (let (a, st1) = getOrCreateState sessionID st;
          st2 = invalidate sessionID st1;
          st3 = updateObject a (\<lambda>s. s\<lparr>version := version s + 1, mode := CountingDown\<rparr>) st2;
          capturedVersion = version (heap st3 a);
          st4 = st3\<lparr>emitted := emitted st3 @ [CountdownToast COUNTDOWN_SECONDS incompleteCount],
                    intervals := intervals st3 @ [(a, capturedVersion, COUNTDOWN_SECONDS, incompleteCount)]\<rparr>
      in updateObject a (\<lambda>s. s\<lparr>timer := Some (sessionID, capturedVersion)\<rparr>) st4)"

text \<open>The callback of \<open>setInterval\<close>, for the interval \<open>(a, capturedVersion, secondsRemaining, count)\<close>.\<close>

definition toastTick :: "nat \<times> nat \<times> nat \<times> nat \<Rightarrow> Enforcer \<Rightarrow> Enforcer" where
  "toastTick iv st =
     (case iv of (a, capturedVersion, secondsRemaining, incompleteCount) \<Rightarrow>
        if iv \<notin> set (intervals st) then st
        else if version (heap st a) \<noteq> capturedVersion then st\<lparr>intervals := remove1 iv (intervals st)\<rparr>
        else
          st\<lparr>intervals := (a, capturedVersion, secondsRemaining - 1, incompleteCount) # remove1 iv (intervals st),
             emitted := emitted st @
               (if secondsRemaining - 1 > 0 then [CountdownToast (secondsRemaining - 1) incompleteCount] else [])\<rparr>)"

text \<open>
  The callback of the countdown's \<open>setTimeout\<close>, for the object at \<open>a\<close>: it runs only
  while the object's timer is pending; it clears the toast interval and the timer and
  calls \<open>executeInjection\<close>.
\<close>

definition timerFires :: "Surroundings \<Rightarrow> nat \<Rightarrow> Enforcer \<Rightarrow> Enforcer" where
  "timerFires env a st =
     (case timer (heap st a) of
        None \<Rightarrow> st
      | Some (sessionID, capturedVersion) \<Rightarrow>
          executeInjection env sessionID capturedVersion
            (updateObject a clearTimer
               (st\<lparr>intervals := filter (\<lambda>iv. \<not> (fst iv = a \<and> fst (snd iv) = capturedVersion)) (intervals st)\<rparr>)))"

text \<open>The \<open>session.idle\<close> branch of the handler: up to the \<open>await\<close> of \<open>session.todo\<close>, and the rest.\<close>

definition idleReceived :: "Surroundings \<Rightarrow> string option \<Rightarrow> Enforcer \<Rightarrow> Enforcer" where
  "idleReceived env sid st =
     (if falsy sid then st
      else if \<not> isMainSession env (the sid) then st
      else
        let (a, st1) = getOrCreateState (the sid) st in
        if mode (heap st1 a) = Recovering then st1
        else if mode (heap st1 a) = ErrorBypass then st1
        else if mode (heap st1 a) = CountingDown \<or> mode (heap st1 a) = Injecting then st1
        else st1\<lparr>suspended := suspended st1 @ [IdleAwaitsTodos (the sid)]\<rparr>)"

definition idleAfterTodos :: "Surroundings \<Rightarrow> string \<Rightarrow> Enforcer \<Rightarrow> Enforcer" where
  "idleAfterTodos env sessionID st =
     (case todoResponse env of
        None \<Rightarrow> st
      | Some todos \<Rightarrow>
          if todos = [] then st
          else if getIncompleteCount todos = 0 then st
          else if hasRunningBgTasks env then st
          else startCountdown sessionID (getIncompleteCount todos) st)"

definition handler :: "Surroundings \<Rightarrow> Event \<Rightarrow> Enforcer \<Rightarrow> Enforcer" where
  "handler env ev st =
     (case ev of
        SessionError sid \<Rightarrow>
          if falsy sid then st
          else
            let (a, st1) = getOrCreateState (the sid) st;
                st2 = invalidate (the sid) st1
            in updateObject a (\<lambda>s. s\<lparr>mode := ErrorBypass\<rparr>) st2
      | SessionIdle sid \<Rightarrow> idleReceived env sid st
      | MessageUpdated sid msgRole finish \<Rightarrow>
          if falsy sid then st
          else if msgRole = Some ''user'' then
            invalidate (the sid)
              (case sessions st (the sid) of
                 None \<Rightarrow> st
               | Some a \<Rightarrow>
                   if mode (heap st a) = ErrorBypass then updateObject a (\<lambda>s. s\<lparr>mode := Idle\<rparr>) st
                   else st)
          else if msgRole = Some ''assistant'' \<and> falsy finish then invalidate (the sid) st
          else st
      | MessagePartUpdated sid msgRole \<Rightarrow>
          if \<not> falsy sid \<and> msgRole = Some ''assistant'' then invalidate (the sid) st else st
      | ToolExecuteBefore sid \<Rightarrow> if \<not> falsy sid then invalidate (the sid) st else st
      | ToolExecuteAfter sid \<Rightarrow> if \<not> falsy sid then invalidate (the sid) st else st
      | SessionDeleted sid \<Rightarrow>
          if falsy sid then st
          else
            (case sessions st (the sid) of
               None \<Rightarrow> st
             | Some a \<Rightarrow> updateObject a clearTimer st)
              \<lparr>sessions := (sessions st)(the sid := None)\<rparr>
      | OtherEvent \<Rightarrow> st)"

text \<open>
  One step of the enforcer: the handler receives an event, a suspended function is
  resumed with the result of its call, a timer or an interval fires, or the recovery
  hook calls \<open>markRecovering\<close> or \<open>markRecoveryComplete\<close>. Resuming a function that is not
  suspended is no step.
\<close>

datatype Step =
    Deliver Event
  | TodosForIdle string
  | TimerFires nat
  | ToastTick "nat \<times> nat \<times> nat \<times> nat"
  | TodosForInjection string nat nat
  | PromptSettles nat
  | MarkRecovering string
  | MarkRecoveryComplete string

definition resume :: "Suspended \<Rightarrow> (Enforcer \<Rightarrow> Enforcer) \<Rightarrow> Enforcer \<Rightarrow> Enforcer" where
  "resume k f st =
     (if k \<in> set (suspended st) then f (st\<lparr>suspended := remove1 k (suspended st)\<rparr>) else st)"

definition step :: "Surroundings \<times> Step \<Rightarrow> Enforcer \<Rightarrow> Enforcer" where
  "step es st =
     (case es of (env, s) \<Rightarrow>
        (case s of
           Deliver ev \<Rightarrow> handler env ev st
         | TodosForIdle sid \<Rightarrow> resume (IdleAwaitsTodos sid) (idleAfterTodos env sid) st
         | TimerFires a \<Rightarrow> timerFires env a st
         | ToastTick iv \<Rightarrow> toastTick iv st
         | TodosForInjection sid a cv \<Rightarrow>
             resume (InjectionAwaitsTodos sid a cv) (injectionAfterTodos env sid a cv) st
         | PromptSettles a \<Rightarrow> resume (InjectionAwaitsPrompt a) (injectionAfterPrompt a) st
         | MarkRecovering sid \<Rightarrow> markRecovering sid st
         | MarkRecoveryComplete sid \<Rightarrow> markRecoveryComplete sid st))"

definition run :: "(Surroundings \<times> Step) list \<Rightarrow> Enforcer \<Rightarrow> Enforcer" where
  "run steps st = foldl (\<lambda>s es. step es s) st steps"

definition createTodoContinuationEnforcer :: Enforcer where
  "createTodoContinuationEnforcer =
     \<lparr>sessions = Map.empty, heap = (\<lambda>a. newSessionState), nextAddr = 0,
      suspended = [], intervals = [], emitted = []\<rparr>"

definition isPrompt :: "Emitted \<Rightarrow> bool" where
  "isPrompt e = (case e of ContinuationPrompt s a t \<Rightarrow> True | _ \<Rightarrow> False)"

definition modeOf :: "Enforcer \<Rightarrow> string \<Rightarrow> SessionMode option" where
  "modeOf st sessionID = map_option (\<lambda>a. mode (heap st a)) (sessions st sessionID)"

definition versionOf :: "Enforcer \<Rightarrow> string \<Rightarrow> nat option" where
  "versionOf st sessionID = map_option (\<lambda>a. version (heap st a)) (sessions st sessionID)"

definition timerOf :: "Enforcer \<Rightarrow> string \<Rightarrow> (string \<times> nat) option" where
  "timerOf st sessionID = (case sessions st sessionID of None \<Rightarrow> None | Some a \<Rightarrow> timer (heap st a))"

text \<open>
  A session is ready to count down when it has no state object yet or its object is in
  mode \<open>Idle\<close>; \<open>objectBefore\<close> is its object as the handler first sees it (a new
  object for a session without one).
\<close>

definition readyToCount :: "Enforcer \<Rightarrow> string \<Rightarrow> bool" where
  "readyToCount st sid =
     (case sessions st sid of None \<Rightarrow> True | Some a \<Rightarrow> mode (heap st a) = Idle)"

definition objectBefore :: "Enforcer \<Rightarrow> string \<Rightarrow> SessionState" where
  "objectBefore st sid = heap (snd (getOrCreateState sid st)) (fst (getOrCreateState sid st))"

definition promptsTo :: "string \<Rightarrow> Emitted list \<Rightarrow> Emitted list" where
  "promptsTo sessionID es =
     filter (\<lambda>e. case e of ContinuationPrompt s a t \<Rightarrow> s = sessionID | _ \<Rightarrow> False) es"

definition threeTodos :: "Todo list" where
  "threeTodos =
     [\<lparr>content = ''write the parser'', status = ''pending'', priority = ''high'', todoId = ''1''\<rparr>,
      \<lparr>content = ''write the tests'', status = ''pending'', priority = ''medium'', todoId = ''2''\<rparr>,
      \<lparr>content = ''read the issue'', status = ''completed'', priority = ''high'', todoId = ''3''\<rparr>]"

definition quietSurroundings :: Surroundings where
  "quietSurroundings = \<lparr>mainSessionID = Some ''ses_main'', clock = 50000,
     todoResponse = Some threeTodos, hasRunningBgTasks = False, prevMessage = None\<rparr>"

definition planAgentSurroundings :: Surroundings where
  "planAgentSurroundings = quietSurroundings\<lparr>prevMessage :=
     Some \<lparr>messageAgent = Some ''Plan'', messageTools = None\<rparr>\<rparr>"

text \<open>
  \<open>captured st a cv\<close>: \<open>cv\<close> is a version captured on the object at \<open>a\<close> by work that is
  still pending: the countdown timer, a suspended \<open>executeInjection\<close> that will compare
  versions again, or a toast interval. A state is \<open>consistent\<close> when every captured
  version belongs to an allocated object, is at most the object's live version and is
  below it if the object is in mode \<open>Recovering\<close>, the version captured by a pending
  timer is the live version, every session's object is allocated, and no two sessions
  share an object. \<open>grows st st'\<close>: no object is lost and no version has decreased.
\<close>

definition captured :: "Enforcer \<Rightarrow> nat \<Rightarrow> nat \<Rightarrow> bool" where
  "captured st a cv =
     ((\<exists>s. timer (heap st a) = Some (s, cv)) \<or>
      (\<exists>s. InjectionAwaitsTodos s a cv \<in> set (suspended st)) \<or>
      (\<exists>r c. (a, cv, r, c) \<in> set (intervals st)))"

definition consistent :: "Enforcer \<Rightarrow> bool" where
  "consistent st =
     ((\<forall>a cv. captured st a cv \<longrightarrow>
          a < nextAddr st \<and> cv \<le> version (heap st a) \<and>
          (mode (heap st a) = Recovering \<longrightarrow> cv < version (heap st a))) \<and>
      (\<forall>a s cv. timer (heap st a) = Some (s, cv) \<longrightarrow> cv = version (heap st a)) \<and>
      (\<forall>sid a. sessions st sid = Some a \<longrightarrow> a < nextAddr st) \<and>
      (\<forall>s1 s2 a. sessions st s1 = Some a \<longrightarrow> sessions st s2 = Some a \<longrightarrow> s1 = s2))"

text \<open>
  Two reachable states: the recovery hook has marked the main session as recovering, and
  the countdown of the main session is pending.
\<close>

definition stateWhileRecovering :: Enforcer where
  "stateWhileRecovering =
     run [(quietSurroundings, MarkRecovering ''ses_main'')] createTodoContinuationEnforcer"

definition countdownPending :: Enforcer where
  "countdownPending =
     run [(quietSurroundings, Deliver (SessionIdle (Some ''ses_main''))),
          (quietSurroundings, TodosForIdle ''ses_main'')] createTodoContinuationEnforcer"

definition grows :: "Enforcer \<Rightarrow> Enforcer \<Rightarrow> bool" where
  "grows st st' =
     (nextAddr st \<le> nextAddr st' \<and>
      (\<forall>a. a < nextAddr st \<longrightarrow> version (heap st a) \<le> version (heap st' a)))"

text \<open>
  For the time after a \<open>session.error\<close> of a session. A step is quiet for the session
  unless it delivers a user message or \<open>session.deleted\<close> for it, or is the recovery
  hook's \<open>markRecovering\<close> for it. Nothing of the session is in flight when no
  \<open>session.idle\<close> handler of the session awaits its todos and no \<open>executeInjection\<close>
  that was started for the session, or that holds the session's object, is suspended.
  \<open>bypassedAt sid a ps st\<close>: the object of the session is the one at \<open>a\<close> and no other
  session's, it is in mode \<open>ErrorBypass\<close> with no timer pending, nothing of the session
  is in flight, and the prompts sent to the session so far are \<open>ps\<close>.
\<close>

definition quietFor :: "string \<Rightarrow> Step \<Rightarrow> bool" where
  "quietFor sid s =
     (case s of
        Deliver ev \<Rightarrow>
          (case ev of
             MessageUpdated sid' msgRole finish \<Rightarrow> \<not> (sid' = Some sid \<and> msgRole = Some ''user'')
           | SessionDeleted sid' \<Rightarrow> sid' \<noteq> Some sid
           | _ \<Rightarrow> True)
      | MarkRecovering sid' \<Rightarrow> sid' \<noteq> sid
      | _ \<Rightarrow> True)"

definition inFlightFor :: "Enforcer \<Rightarrow> string \<Rightarrow> Suspended \<Rightarrow> bool" where
  "inFlightFor st sid k =
     (case k of
        IdleAwaitsTodos s \<Rightarrow> s = sid
      | InjectionAwaitsTodos s a cv \<Rightarrow> s = sid \<or> sessions st sid = Some a
      | InjectionAwaitsPrompt a \<Rightarrow> sessions st sid = Some a)"

definition nothingInFlight :: "Enforcer \<Rightarrow> string \<Rightarrow> bool" where
  "nothingInFlight st sid = (filter (inFlightFor st sid) (suspended st) = [])"

definition bypassedAt :: "string \<Rightarrow> nat \<Rightarrow> Emitted list \<Rightarrow> Enforcer \<Rightarrow> bool" where
  "bypassedAt sid a ps st =
     (sessions st sid = Some a \<and> a < nextAddr st \<and>
      (\<forall>s. sessions st s = Some a \<longrightarrow> s = sid) \<and>
      mode (heap st a) = ErrorBypass \<and> timer (heap st a) = None \<and>
      nothingInFlight st sid \<and> promptsTo sid (emitted st) = ps)"

text \<open>
  Concrete histories of the main session: a \<open>session.error\<close>, a recovery by the recovery
  hook, then \<open>session.idle\<close> with its countdown and injection; a \<open>session.error\<close> that
  arrives while the prompt of an injection is awaited, then the return of the prompt and
  \<open>session.idle\<close>; the state after a \<open>session.error\<close> that cancels a pending countdown,
  and the steps of the stale timer and a further \<open>session.idle\<close> after it.
\<close>

definition errorThenRecovery :: "(Surroundings \<times> Step) list" where
  "errorThenRecovery =
     [(quietSurroundings, Deliver (SessionError (Some ''ses_main''))),
      (quietSurroundings, MarkRecovering ''ses_main''),
      (quietSurroundings, MarkRecoveryComplete ''ses_main''),
      (quietSurroundings, Deliver (SessionIdle (Some ''ses_main''))),
      (quietSurroundings, TodosForIdle ''ses_main''),
      (quietSurroundings, TimerFires 0),
      (quietSurroundings, TodosForInjection ''ses_main'' 0 4)]"

definition errorDuringPrompt :: "(Surroundings \<times> Step) list" where
  "errorDuringPrompt =
     [(quietSurroundings, Deliver (SessionIdle (Some ''ses_main''))),
      (quietSurroundings, TodosForIdle ''ses_main''),
      (quietSurroundings, TimerFires 0),
      (quietSurroundings, TodosForInjection ''ses_main'' 0 2),
      (quietSurroundings, Deliver (SessionError (Some ''ses_main''))),
      (quietSurroundings, PromptSettles 0),
      (quietSurroundings, Deliver (SessionIdle (Some ''ses_main''))),
      (quietSurroundings, TodosForIdle ''ses_main'')]"

definition afterError :: Enforcer where
  "afterError = step (quietSurroundings, Deliver (SessionError (Some ''ses_main''))) countdownPending"

definition idleAgain :: "(Surroundings \<times> Step) list" where
  "idleAgain =
     [(quietSurroundings, TimerFires 0),
      (quietSurroundings, Deliver (SessionIdle (Some ''ses_main''))),
      (quietSurroundings, TodosForIdle ''ses_main'')]"

text \<open>
  For the statement about one countdown of a session whose state object is at \<open>a\<close>. A
  step is foreign to the session when it is an event of another session (or of none), a
  toast interval, a timer of another object, or the resumption of a suspended function
  that concerns neither the session nor its object. \<open>noEventFor\<close> excludes only the
  events of the session and \<open>markRecovering\<close> for it. In a state where every pending timer
  belongs to the object of the session it was started for (\<open>timersOwned\<close>), the session
  \<open>owned\<close> its object alone; \<open>stands sid a obj ks ps st\<close> records what a countdown depends
  on: the object, the suspended functions that concern the session or the object, and
  the prompts sent to the session.
\<close>

definition sessionOfEvent :: "Event \<Rightarrow> string option" where
  "sessionOfEvent ev =
     (case ev of
        SessionError sid \<Rightarrow> sid
      | SessionIdle sid \<Rightarrow> sid
      | MessageUpdated sid msgRole finish \<Rightarrow> sid
      | MessagePartUpdated sid msgRole \<Rightarrow> sid
      | ToolExecuteBefore sid \<Rightarrow> sid
      | ToolExecuteAfter sid \<Rightarrow> sid
      | SessionDeleted sid \<Rightarrow> sid
      | OtherEvent \<Rightarrow> None)"

definition foreignTo :: "string \<Rightarrow> nat \<Rightarrow> Step \<Rightarrow> bool" where
  "foreignTo sid a s =
     (case s of
        Deliver ev \<Rightarrow> sessionOfEvent ev \<noteq> Some sid
      | TodosForIdle sid' \<Rightarrow> sid' \<noteq> sid
      | TimerFires b \<Rightarrow> b \<noteq> a
      | ToastTick iv \<Rightarrow> True
      | TodosForInjection sid' b cv \<Rightarrow> sid' \<noteq> sid \<and> b \<noteq> a
      | PromptSettles b \<Rightarrow> b \<noteq> a
      | MarkRecovering sid' \<Rightarrow> sid' \<noteq> sid
      | MarkRecoveryComplete sid' \<Rightarrow> sid' \<noteq> sid)"

definition noEventFor :: "string \<Rightarrow> Step \<Rightarrow> bool" where
  "noEventFor sid s =
     (case s of
        Deliver ev \<Rightarrow> sessionOfEvent ev \<noteq> Some sid
      | MarkRecovering sid' \<Rightarrow> sid' \<noteq> sid
      | _ \<Rightarrow> True)"

definition about :: "string \<Rightarrow> nat \<Rightarrow> Suspended \<Rightarrow> bool" where
  "about sid a k =
     (case k of
        IdleAwaitsTodos s \<Rightarrow> s = sid
      | InjectionAwaitsTodos s b cv \<Rightarrow> s = sid \<or> b = a
      | InjectionAwaitsPrompt b \<Rightarrow> b = a)"

definition timersOwned :: "Enforcer \<Rightarrow> bool" where
  "timersOwned st = (\<forall>b s cv. timer (heap st b) = Some (s, cv) \<longrightarrow> sessions st s = Some b)"

definition owned :: "string \<Rightarrow> nat \<Rightarrow> Enforcer \<Rightarrow> bool" where
  "owned sid a st =
     (sessions st sid = Some a \<and> a < nextAddr st \<and>
      (\<forall>s. sessions st s = Some a \<longrightarrow> s = sid) \<and>
      (\<forall>b cv. timer (heap st b) = Some (sid, cv) \<longrightarrow> b = a))"

definition stands :: "string \<Rightarrow> nat \<Rightarrow> SessionState \<Rightarrow> Suspended list \<Rightarrow> Emitted list \<Rightarrow> Enforcer \<Rightarrow> bool" where
  "stands sid a obj ks ps st =
     (owned sid a st \<and> heap st a = obj \<and> filter (about sid a) (suspended st) = ks \<and>
      promptsTo sid (emitted st) = ps)"

text \<open>
  The countdown of the main session as the clock runs it: the toast interval ticks after
  one second, the timer fires after two; and the same countdown with
  \<open>tool.execute.before\<close> arriving after the first tick, followed by the interval's next
  tick and the stale timer.
\<close>

definition realCountdown :: "(Surroundings \<times> Step) list" where
  "realCountdown =
     [(quietSurroundings, Deliver (SessionIdle (Some ''ses_main''))),
      (quietSurroundings, TodosForIdle ''ses_main''),
      (quietSurroundings, ToastTick (0, 2, 2, 2)),
      (quietSurroundings, TimerFires 0),
      (quietSurroundings, TodosForInjection ''ses_main'' 0 2),
      (quietSurroundings, PromptSettles 0)]"

definition cancelledCountdown :: "(Surroundings \<times> Step) list" where
  "cancelledCountdown =
     [(quietSurroundings, Deliver (SessionIdle (Some ''ses_main''))),
      (quietSurroundings, TodosForIdle ''ses_main''),
      (quietSurroundings, ToastTick (0, 2, 2, 2)),
      (quietSurroundings, Deliver (ToolExecuteBefore (Some ''ses_main''))),
      (quietSurroundings, ToastTick (0, 2, 1, 2)),
      (quietSurroundings, TimerFires 0)]"
section \<open>Theorems: preemptive compaction\<close>

text \<open>
  C6. The claim: the context limit is the table entry whose key is the longest substring
  of the model identifier. The loop returns the first entry in table order whose key is
  a substring. The table lists \<open>o1\<close> before \<open>o1-mini\<close> and \<open>o1-preview\<close>, so for the
  model \<open>o1-mini\<close> the loop answers with the limit of \<open>o1\<close>, 200000, and the table's own
  entry for \<open>o1-mini\<close>, 128000, is never reached; the usage ratio of 100000 tokens is
  then 1/2, where the table's entry gives 25/32.
\<close>

theorem getContextLimit_o1_mini_first_match:
  "getContextLimit ''o1-mini'' = 200000 \<and> longestMatchLimit ''o1-mini'' = 128000 \<and>
   usageRatioOf \<lparr>inputTokens = 100000, outputTokens = 0, cacheReadTokens = 0\<rparr> ''o1-mini'' = 1 / 2"
proof -
  have a: "getContextLimit ''o1-mini'' = 200000"
    by (simp add: getContextLimit_def MODEL_CONTEXT_LIMITS_def sublist_code(3))
  have b: "longestMatchLimit ''o1-mini'' = 128000"
    by (simp add: longestMatchLimit_def matchingEntries_def longer_def
        MODEL_CONTEXT_LIMITS_def sublist_code(3))
  from a show ?thesis
    by (simp add: b usageRatioOf_def totalUsedOf_def)
qed

subsection \<open>One proactive attempt among other steps\<close>












lemma attempt_without_provider:
  assumes "passesTriggerChecks cfg env sid la st"
    and "falsy (providerID la) \<or> falsy (modelID la)"
  shows "checkAndTriggerCompaction cfg env sid la st
           = st\<lparr>lastCompactionTime := (lastCompactionTime st)(sid \<mapsto> nowAtSet env)\<rparr>"
  using assms
  by (auto simp: passesTriggerChecks_def checkAndTriggerCompaction_def Let_def falsy_def
      split: option.splits)





section \<open>Theorems: context-overflow recovery executor\<close>

lemmas executor_defs =
  executeCompact_def truncateTier_def summarizeTier_def revertTier_def
  getOrCreateTruncateState_def getOrCreateRetryState_def getOrCreateFallbackState_def
  clearSessionState_def resetRetryAndTruncate_def

lemmas executor_counters =
  truncateAttemptsOf_def retryAttemptsOf_def revertAttemptsOf_def

lemma executeCompact_in_progress:
  "sid \<in> compactionInProgress st \<Longrightarrow> executeCompact cfg env sid st = (AlreadyInProgress, st, [])"
  by (simp add: executeCompact_def)

lemma truncateTier_exhausted:
  assumes "maxTruncateAttempts cfg \<le> truncateAttemptsOf st sid"
  shows "truncateTier cfg env sid st = (None, snd (getOrCreateTruncateState st sid), [])"
  using assms
  by (auto simp: truncateTier_def getOrCreateTruncateState_def truncateAttemptsOf_def
      split: option.splits)

lemma truncateTier_attempts:
  assumes "truncateAttemptsOf st sid < maxTruncateAttempts cfg"
    and "largest env = Some lg" and "minOutputSizeToTruncate cfg \<le> outputSize lg"
  shows "\<exists>r st1 rest. truncateTier cfg env sid st =
           (r, st1, FindLargestToolResult # TruncateToolResult (partPath lg) # rest)"
  using assms
  by (auto simp: truncateTier_def getOrCreateTruncateState_def truncateAttemptsOf_def
      split: option.splits)

lemma summarizeTier_events:
  "summarizeTier cfg env sid st = (r, st1, evs) \<Longrightarrow> \<forall>e \<in> set evs. \<not> isStorageCall e"
  by (auto simp: summarizeTier_def getOrCreateRetryState_def Let_def isStorageCall_def
      split: option.splits if_splits prod.splits)

lemma revertTier_events:
  "revertTier cfg env sid st = (r, st1, evs) \<Longrightarrow>
     \<forall>e \<in> set evs. \<not> isStorageCall e \<and> \<not> isSummarizeCall e"
  by (auto simp: revertTier_def getOrCreateFallbackState_def Let_def isStorageCall_def
      isSummarizeCall_def split: option.splits if_splits prod.splits)

lemma retry_after_truncate_record:
  "retryAttemptsOf (snd (getOrCreateTruncateState st sid)) sid = retryAttemptsOf st sid"
  by (simp add: getOrCreateTruncateState_def retryAttemptsOf_def split: option.splits)

lemma summarizeTier_first_call:
  assumes "retryAttemptsOf st sid < maxAttempts cfg"
    and "\<not> falsy (msgProviderID env)" and "\<not> falsy (msgModelID env)"
  shows "\<exists>r st1 e3. summarizeTier cfg env sid st =
           (Some r, st1,
            [ShowToast ''Auto Compact''
               (SummarizingAttempt (retryAttemptsOf st sid + 1) (maxAttempts cfg)) ''warning'' 3000,
             SummarizeSession (the (msgProviderID env)) (the (msgModelID env)), e3])"
  using assms
  by (auto simp: summarizeTier_def getOrCreateRetryState_def retryAttemptsOf_def Let_def
      split: option.splits)

text \<open>
  C3, as stated, at a session whose recovery chain is in flight: its truncate attempts
  are at the maximum, a summarize attempt is left and the provider and model are known,
  yet the invocation returns at the guard and reaches no tier.
\<close>

theorem in_flight_session_reaches_no_tier:
  "truncateAttemptsOf stateChainInFlight ''ses_1'' = maxTruncateAttempts cfgExecutor \<and>
   retryAttemptsOf stateChainInFlight ''ses_1'' < maxAttempts cfgExecutor \<and>
   executeCompact cfgExecutor envSummarizeOk ''ses_1'' stateChainInFlight
     = (AlreadyInProgress, stateChainInFlight, [])"
  by (simp add: executeCompact_def stateChainInFlight_def cfgExecutor_def executor_counters)

text \<open>
  C3, amended: the invocation is one that passes the single-flight guard (no recovery
  chain for the session is in flight). With the largest tool result at or above the
  size threshold and truncate attempts below the maximum, the first two effects of the
  invocation are the search for the largest result and its truncation, and in every
  invocation (guarded or not) each \<open>session.summarize\<close> call has a truncation before it.
  With truncate attempts at the maximum, the invocation makes no storage call at all and
  the summarize tier is the first to act: if a summarize attempt is left and provider and
  model are known, its toast and \<open>session.summarize\<close> are the first two effects.
\<close>

theorem truncate_tier_before_summarize_tier:
  assumes "executeCompact cfg env sid st = (ex, st', evs)"
  shows "(truncateAttemptsOf st sid < maxTruncateAttempts cfg \<and> largest env = Some lg \<and>
          minOutputSizeToTruncate cfg \<le> outputSize lg \<longrightarrow>
            (\<forall>pre e post. evs = pre @ e # post \<and> isSummarizeCall e \<longrightarrow>
               TruncateToolResult (partPath lg) \<in> set pre) \<and>
            (sid \<notin> compactionInProgress st \<longrightarrow>
               take 2 evs = [FindLargestToolResult, TruncateToolResult (partPath lg)])) \<and>
         (maxTruncateAttempts cfg \<le> truncateAttemptsOf st sid \<and> sid \<notin> compactionInProgress st \<longrightarrow>
            filter isStorageCall evs = [] \<and>
            (retryAttemptsOf st sid < maxAttempts cfg \<and>
             \<not> falsy (msgProviderID env) \<and> \<not> falsy (msgModelID env) \<longrightarrow>
               take 2 evs =
                 [ShowToast ''Auto Compact''
                    (SummarizingAttempt (retryAttemptsOf st sid + 1) (maxAttempts cfg)) ''warning'' 3000,
                  SummarizeSession (the (msgProviderID env)) (the (msgModelID env))]))"
proof (cases "sid \<in> compactionInProgress st")
  case True
  with assms show ?thesis by (simp add: executeCompact_in_progress)
next
  case False
  let ?st0 = "st\<lparr>compactionInProgress := insert sid (compactionInProgress st)\<rparr>"
  have cnt: "truncateAttemptsOf ?st0 sid = truncateAttemptsOf st sid"
    "retryAttemptsOf ?st0 sid = retryAttemptsOf st sid"
    by (simp_all add: executor_counters)
  have first: "?thesis" if lt: "truncateAttemptsOf st sid < maxTruncateAttempts cfg"
    "largest env = Some lg" "minOutputSizeToTruncate cfg \<le> outputSize lg"
  proof -
    from truncateTier_attempts[of ?st0 sid cfg env lg] lt cnt obtain r st1 rest where
      t: "truncateTier cfg env sid ?st0 =
           (r, st1, FindLargestToolResult # TruncateToolResult (partPath lg) # rest)"
      by auto
    from assms False t obtain more where
      evs: "evs = FindLargestToolResult # TruncateToolResult (partPath lg) # more"
      by (auto simp: executeCompact_def Let_def split: option.splits prod.splits)
    have "TruncateToolResult (partPath lg) \<in> set pre"
      if "evs = pre @ e # post" "isSummarizeCall e" for pre e post
    proof (cases pre)
      case Nil
      with that evs show ?thesis by (simp add: isSummarizeCall_def)
    next
      case (Cons a pre')
      note c1 = this
      show ?thesis
      proof (cases pre')
        case Nil
        with c1 that evs show ?thesis by (auto simp: isSummarizeCall_def)
      next
        case (Cons b pre'')
        with c1 that evs show ?thesis by simp
      qed
    qed
    with evs lt show ?thesis by auto
  qed
  have second: "?thesis" if ge: "maxTruncateAttempts cfg \<le> truncateAttemptsOf st sid"
  proof -
    let ?st1 = "snd (getOrCreateTruncateState ?st0 sid)"
    from truncateTier_exhausted[of cfg ?st0 sid env] ge cnt
    have t: "truncateTier cfg env sid ?st0 = (None, ?st1, [])" by simp
    obtain r2 st2 ev2 where s: "summarizeTier cfg env sid ?st1 = (r2, st2, ev2)"
      by (cases "summarizeTier cfg env sid ?st1") auto
    obtain r3 st3 ev3 where v: "revertTier cfg env sid st2 = (r3, st3, ev3)"
      by (cases "revertTier cfg env sid st2") auto
    from assms False t s v have evs: "evs = ev2 \<or> evs = ev2 @ ev3 \<or> evs = ev2 @ ev3 @ [failureToast]"
      by (auto simp: executeCompact_def Let_def split: option.splits)
    have nf: "\<not> isStorageCall failureToast"
      by (simp add: isStorageCall_def failureToast_def)
    from summarizeTier_events[OF s] revertTier_events[OF v] evs nf
    have none: "filter isStorageCall evs = []" by auto
    have two: "take 2 evs =
                 [ShowToast ''Auto Compact''
                    (SummarizingAttempt (retryAttemptsOf st sid + 1) (maxAttempts cfg)) ''warning'' 3000,
                  SummarizeSession (the (msgProviderID env)) (the (msgModelID env))]"
      if "retryAttemptsOf st sid < maxAttempts cfg"
        "\<not> falsy (msgProviderID env)" "\<not> falsy (msgModelID env)"
    proof -
      have "retryAttemptsOf ?st1 sid = retryAttemptsOf st sid"
        using cnt by (simp add: retry_after_truncate_record)
      with summarizeTier_first_call[of ?st1 sid cfg env] that s
      obtain e3 r where "r2 = Some r" "ev2 =
            [ShowToast ''Auto Compact''
               (SummarizingAttempt (retryAttemptsOf st sid + 1) (maxAttempts cfg)) ''warning'' 3000,
             SummarizeSession (the (msgProviderID env)) (the (msgModelID env)), e3]"
        by auto
      with assms False t s show ?thesis
        by (auto simp: executeCompact_def Let_def)
    qed
    from none two ge show ?thesis by auto
  qed
  from first second show ?thesis
    by (cases "truncateAttemptsOf st sid < maxTruncateAttempts cfg") auto
qed

theorem truncate_tier_before_summarize_tier_witness:
  "take 2 (snd (snd (executeCompact cfgExecutor envSummarizeOk ''ses_1'' stateEmpty)))
     = [FindLargestToolResult, TruncateToolResult ''/parts/prt_9.json''] \<and>
   maxTruncateAttempts cfgExecutor \<le> truncateAttemptsOf stateTruncateExhausted ''ses_1'' \<and>
   ''ses_1'' \<notin> compactionInProgress stateTruncateExhausted \<and>
   filter isStorageCall (snd (snd (executeCompact cfgExecutor envSummarizeOk ''ses_1'' stateTruncateExhausted))) = [] \<and>
   take 2 (snd (snd (executeCompact cfgExecutor envSummarizeOk ''ses_1'' stateTruncateExhausted)))
     = [ShowToast ''Auto Compact'' (SummarizingAttempt 1 2) ''warning'' 3000,
        SummarizeSession ''anthropic'' ''claude-opus-4'']"
proof -
  let ?a = "executeCompact cfgExecutor envSummarizeOk ''ses_1'' stateEmpty"
  let ?b = "executeCompact cfgExecutor envSummarizeOk ''ses_1'' stateTruncateExhausted"
  have ea: "?a = (fst ?a, fst (snd ?a), snd (snd ?a))" and eb: "?b = (fst ?b, fst (snd ?b), snd (snd ?b))"
    by simp_all
  have ha: "truncateAttemptsOf stateEmpty ''ses_1'' < maxTruncateAttempts cfgExecutor"
    "largest envSummarizeOk = Some \<lparr>partPath = ''/parts/prt_9.json'', partId = ''prt_9'', outputSize = 50000\<rparr>"
    "minOutputSizeToTruncate cfgExecutor \<le> 50000" "''ses_1'' \<notin> compactionInProgress stateEmpty"
    by (simp_all add: stateEmpty_def cfgExecutor_def envSummarizeOk_def executor_counters)
  have hb: "maxTruncateAttempts cfgExecutor \<le> truncateAttemptsOf stateTruncateExhausted ''ses_1''"
    "''ses_1'' \<notin> compactionInProgress stateTruncateExhausted"
    "retryAttemptsOf stateTruncateExhausted ''ses_1'' = 0" "maxAttempts cfgExecutor = 2"
    "\<not> falsy (msgProviderID envSummarizeOk)" "\<not> falsy (msgModelID envSummarizeOk)"
    "the (msgProviderID envSummarizeOk) = ''anthropic''" "the (msgModelID envSummarizeOk) = ''claude-opus-4''"
    by (simp_all add: stateTruncateExhausted_def stateEmpty_def cfgExecutor_def envSummarizeOk_def
        executor_counters falsy_def)
  from truncate_tier_before_summarize_tier[OF ea,
      of "\<lparr>partPath = ''/parts/prt_9.json'', partId = ''prt_9'', outputSize = 50000\<rparr>"] ha
  have 1: "take 2 (snd (snd ?a)) = [FindLargestToolResult, TruncateToolResult ''/parts/prt_9.json'']"
    by simp
  from truncate_tier_before_summarize_tier[OF eb] hb
  have 2: "filter isStorageCall (snd (snd ?b)) = [] \<and>
      take 2 (snd (snd ?b)) = [ShowToast ''Auto Compact'' (SummarizingAttempt 1 2) ''warning'' 3000,
        SummarizeSession ''anthropic'' ''claude-opus-4'']"
    by simp
  from 1 2 hb(1,2) show ?thesis by simp
qed

lemma clear_after_records:
  "clearSessionState (snd (getOrCreateFallbackState (snd (getOrCreateRetryState
      (snd (getOrCreateTruncateState (st\<lparr>compactionInProgress := insert sid (compactionInProgress st)\<rparr>) sid))
      sid)) sid)) sid = clearSessionState st sid"
  by (simp add: clearSessionState_def getOrCreateFallbackState_def getOrCreateRetryState_def
      getOrCreateTruncateState_def split: option.splits)

lemma sessionCleared_clear: "sessionCleared (clearSessionState st sid) sid"
  by (simp add: sessionCleared_def clearSessionState_def)

text \<open>
  C4, as stated, at a session whose three counters are at their maxima while a chain for
  it is in flight: the invocation returns at the guard, the per-session records stay as
  they are and no toast is shown.
\<close>

theorem exhausted_in_flight_session_keeps_state:
  "maxTruncateAttempts cfgExecutor \<le> truncateAttemptsOf stateAllExhaustedInFlight ''ses_1'' \<and>
   maxAttempts cfgExecutor \<le> retryAttemptsOf stateAllExhaustedInFlight ''ses_1'' \<and>
   maxRevertAttempts cfgExecutor \<le> revertAttemptsOf stateAllExhaustedInFlight ''ses_1'' \<and>
   executeCompact cfgExecutor envSummarizeOk ''ses_1'' stateAllExhaustedInFlight
     = (AlreadyInProgress, stateAllExhaustedInFlight, []) \<and>
   \<not> sessionCleared stateAllExhaustedInFlight ''ses_1''"
  by (simp add: executeCompact_def stateAllExhaustedInFlight_def stateAllExhausted_def
      stateEmpty_def cfgExecutor_def executor_counters sessionCleared_def)

text \<open>
  C4, amended: the invocation passes the single-flight guard. If the session's truncate,
  summarize and revert attempts are all at (or beyond) their maxima, the invocation makes
  no storage call and no call to the session, removes the session from all six
  collections, shows the one toast \<open>Auto Compact Failed\<close> \<open>All recovery attempts failed.
  Please start a new session.\<close> and sets no timer.
\<close>

theorem exhausted_tiers_clear_state_and_stop:
  assumes "sid \<notin> compactionInProgress st"
    and "maxTruncateAttempts cfg \<le> truncateAttemptsOf st sid"
    and "maxAttempts cfg \<le> retryAttemptsOf st sid"
    and "maxRevertAttempts cfg \<le> revertAttemptsOf st sid"
  shows "executeCompact cfg env sid st =
           (GaveUp, clearSessionState st sid,
            [ShowToast ''Auto Compact Failed''
               (FixedMessage ''All recovery attempts failed. Please start a new session.'')
               ''error'' 5000]) \<and>
         sessionCleared (clearSessionState st sid) sid \<and>
         filter isScheduled (snd (snd (executeCompact cfg env sid st))) = []"
proof -
  let ?st0 = "st\<lparr>compactionInProgress := insert sid (compactionInProgress st)\<rparr>"
  let ?st1 = "snd (getOrCreateTruncateState ?st0 sid)"
  let ?st2 = "snd (getOrCreateRetryState ?st1 sid)"
  let ?st3 = "snd (getOrCreateFallbackState ?st2 sid)"
  have t: "truncateTier cfg env sid ?st0 = (None, ?st1, [])"
    using assms(2) by (intro truncateTier_exhausted) (simp add: executor_counters)
  have s: "summarizeTier cfg env sid ?st1 = (None, ?st2, [])"
    using assms(3)
    by (auto simp: summarizeTier_def getOrCreateRetryState_def getOrCreateTruncateState_def
        retryAttemptsOf_def split: option.splits)
  have r: "revertTier cfg env sid ?st2 = (None, ?st3, [])"
    using assms(4)
    by (auto simp: revertTier_def getOrCreateFallbackState_def getOrCreateRetryState_def
        getOrCreateTruncateState_def revertAttemptsOf_def split: option.splits)
  have e: "executeCompact cfg env sid st = (GaveUp, clearSessionState st sid, [failureToast])"
    using assms(1) t s r by (simp add: executeCompact_def clear_after_records)
  show ?thesis
    using e by (simp add: sessionCleared_clear failureToast_def isScheduled_def)
qed

theorem exhausted_tiers_witness:
  "''ses_1'' \<notin> compactionInProgress stateAllExhausted \<and>
   \<not> sessionCleared stateAllExhausted ''ses_1'' \<and>
   executeCompact cfgExecutor envSummarizeOk ''ses_1'' stateAllExhausted =
     (GaveUp, stateEmpty,
      [ShowToast ''Auto Compact Failed''
         (FixedMessage ''All recovery attempts failed. Please start a new session.'') ''error'' 5000]) \<and>
   sessionCleared stateEmpty ''ses_1''"
proof -
  have h: "''ses_1'' \<notin> compactionInProgress stateAllExhausted"
    "maxTruncateAttempts cfgExecutor \<le> truncateAttemptsOf stateAllExhausted ''ses_1''"
    "maxAttempts cfgExecutor \<le> retryAttemptsOf stateAllExhausted ''ses_1''"
    "maxRevertAttempts cfgExecutor \<le> revertAttemptsOf stateAllExhausted ''ses_1''"
    by (simp_all add: stateAllExhausted_def stateEmpty_def cfgExecutor_def executor_counters)
  have c: "clearSessionState stateAllExhausted ''ses_1'' = stateEmpty"
    by (simp add: clearSessionState_def stateAllExhausted_def stateEmpty_def)
  have n: "\<not> sessionCleared stateAllExhausted ''ses_1''"
    by (simp add: sessionCleared_def stateAllExhausted_def stateEmpty_def)
  from exhausted_tiers_clear_state_and_stop[OF h, of envSummarizeOk] c n h(1)
  show ?thesis by simp
qed

lemma truncateTier_Some:
  assumes "truncateTier cfg env sid st = (Some ex, st1, ev)"
  shows "ex = TruncatedOutput \<and> truncateStateBySession st1 sid \<noteq> None \<and>
         truncateAttemptsOf st1 sid = truncateAttemptsOf st sid + 1 \<and>
         compactionInProgress st1 = compactionInProgress st - {sid} \<and>
         last ev = ContinueLater 500"
  using assms
  by (auto simp: truncateTier_def getOrCreateTruncateState_def truncateAttemptsOf_def
      split: option.splits if_splits)

lemma truncateTier_None:
  assumes "truncateTier cfg env sid st = (None, st1, ev)"
  shows "st1 = snd (getOrCreateTruncateState st sid) \<and> filter isContinue ev = []"
  using assms
  by (auto simp: truncateTier_def getOrCreateTruncateState_def isContinue_def
      split: option.splits if_splits)

lemma summarizeTier_Some:
  assumes "summarizeTier cfg env sid st = (Some ex, st2, ev)"
  shows "(ex = Summarized \<and> sessionCleared st2 sid \<and> last ev = ContinueLater 500) \<or>
         (ex = SummarizeRetryScheduled \<and> retryAttemptsOf st2 sid = retryAttemptsOf st sid + 1 \<and>
          compactionInProgress st2 = compactionInProgress st - {sid} \<and>
          last ev = ExecuteCompactLater (cappedDelay cfg (retryAttemptsOf st sid + 1)))"
  using assms
  by (auto simp: summarizeTier_def getOrCreateRetryState_def retryAttemptsOf_def Let_def
      sessionCleared_def clearSessionState_def split: option.splits if_splits)

lemma summarizeTier_None:
  assumes "summarizeTier cfg env sid st = (None, st2, ev)"
  shows "ev = [] \<and> retryStateBySession st2 sid \<noteq> None \<and>
         truncateStateBySession st2 = truncateStateBySession st \<and>
         fallbackStateBySession st2 = fallbackStateBySession st \<and>
         compactionInProgress st2 = compactionInProgress st"
  using assms
  by (auto simp: summarizeTier_def getOrCreateRetryState_def Let_def
      split: option.splits if_splits)

lemma revertTier_Some:
  assumes "revertTier cfg env sid st = (Some ex, st3, ev)"
    and "retryStateBySession st sid \<noteq> None" and "truncateStateBySession st sid \<noteq> None"
  shows "ex = RevertedPair \<and> fallbackStateBySession st3 sid \<noteq> None \<and>
         revertAttemptsOf st3 sid = revertAttemptsOf st sid + 1 \<and>
         retryStateBySession st3 sid \<noteq> None \<and> retryAttemptsOf st3 sid = 0 \<and>
         truncateStateBySession st3 sid \<noteq> None \<and> truncateAttemptsOf st3 sid = 0 \<and>
         compactionInProgress st3 = compactionInProgress st - {sid} \<and>
         last ev = ExecuteCompactLater 1000 \<and> filter isContinue ev = []"
  using assms
  by (auto simp: revertTier_def getOrCreateFallbackState_def resetRetryAndTruncate_def
      executor_counters Let_def isContinue_def split: option.splits if_splits prod.splits)

lemma revertTier_None:
  assumes "revertTier cfg env sid st = (None, st3, ev)"
  shows "filter isContinue ev = []"
  using assms
  by (auto simp: revertTier_def getOrCreateFallbackState_def Let_def isContinue_def
      split: option.splits if_splits prod.splits)

lemma truncate_record_created:
  "truncateStateBySession (snd (getOrCreateTruncateState st sid)) sid \<noteq> None \<and>
   retryStateBySession (snd (getOrCreateTruncateState st sid)) = retryStateBySession st \<and>
   fallbackStateBySession (snd (getOrCreateTruncateState st sid)) = fallbackStateBySession st \<and>
   compactionInProgress (snd (getOrCreateTruncateState st sid)) = compactionInProgress st"
  by (simp add: getOrCreateTruncateState_def split: option.splits)

text \<open>
  C5, as stated, at a successful revert: truncation and summarize are exhausted, the last
  user and assistant messages are reverted, and afterwards the session still has all
  three attempt records (the revert counter now 1) and no continuation has been sent.
\<close>

theorem revert_success_keeps_records:
  "executeCompact cfgExecutor envSummarizeOk ''ses_1'' stateRevertLeft =
     (RevertedPair,
      stateEmpty\<lparr>
        truncateStateBySession := [''ses_1'' \<mapsto> \<lparr>truncateAttempt = 0, lastTruncatedPartId = Some ''prt_7''\<rparr>],
        retryStateBySession := [''ses_1'' \<mapsto> \<lparr>attempt = 0, lastAttemptTime = 999000\<rparr>],
        fallbackStateBySession := [''ses_1'' \<mapsto> \<lparr>revertAttempt = 1, lastRevertedMessageID = Some ''msg_u''\<rparr>]\<rparr>,
      [SessionMessages,
       ShowToast ''Emergency Recovery'' (FixedMessage ''Removing last message pair...'') ''warning'' 3000,
       RevertMessage ''msg_a'', RevertMessage ''msg_u'', ExecuteCompactLater 1000]) \<and>
   \<not> sessionCleared (fst (snd (executeCompact cfgExecutor envSummarizeOk ''ses_1'' stateRevertLeft))) ''ses_1''"
proof -
  have "executeCompact cfgExecutor envSummarizeOk ''ses_1'' stateRevertLeft =
     (RevertedPair,
      stateEmpty\<lparr>
        truncateStateBySession := [''ses_1'' \<mapsto> \<lparr>truncateAttempt = 0, lastTruncatedPartId = Some ''prt_7''\<rparr>],
        retryStateBySession := [''ses_1'' \<mapsto> \<lparr>attempt = 0, lastAttemptTime = 999000\<rparr>],
        fallbackStateBySession := [''ses_1'' \<mapsto> \<lparr>revertAttempt = 1, lastRevertedMessageID = Some ''msg_u''\<rparr>]\<rparr>,
      [SessionMessages,
       ShowToast ''Emergency Recovery'' (FixedMessage ''Removing last message pair...'') ''warning'' 3000,
       RevertMessage ''msg_a'', RevertMessage ''msg_u'', ExecuteCompactLater 1000])"
    by (simp add: executor_defs getLastMessagePair_def falsy_def Let_def
        stateRevertLeft_def stateEmpty_def cfgExecutor_def envSummarizeOk_def)
  then show ?thesis
    by (simp add: sessionCleared_def stateEmpty_def)
qed

lemma executeCompact_by_exit:
  assumes "executeCompact cfg env sid st = (ex, st', evs)"
  shows "(ex = Summarized \<longrightarrow> sessionCleared st' sid \<and> last evs = ContinueLater 500) \<and>
         (ex = GaveUp \<longrightarrow> sessionCleared st' sid \<and> last evs = failureToast \<and>
            filter isContinue evs = []) \<and>
         (ex = RevertedPair \<longrightarrow>
            fallbackStateBySession st' sid \<noteq> None \<and>
            revertAttemptsOf st' sid = revertAttemptsOf st sid + 1 \<and>
            retryStateBySession st' sid \<noteq> None \<and> retryAttemptsOf st' sid = 0 \<and>
            truncateStateBySession st' sid \<noteq> None \<and> truncateAttemptsOf st' sid = 0 \<and>
            sid \<notin> compactionInProgress st' \<and>
            last evs = ExecuteCompactLater 1000 \<and> filter isContinue evs = []) \<and>
         (ex = TruncatedOutput \<longrightarrow>
            truncateStateBySession st' sid \<noteq> None \<and>
            truncateAttemptsOf st' sid = truncateAttemptsOf st sid + 1 \<and>
            sid \<notin> compactionInProgress st' \<and> last evs = ContinueLater 500) \<and>
         (ex = SummarizeRetryScheduled \<longrightarrow>
            retryStateBySession st' sid \<noteq> None \<and>
            retryAttemptsOf st' sid = retryAttemptsOf st sid + 1 \<and>
            sid \<notin> compactionInProgress st' \<and>
            last evs = ExecuteCompactLater (cappedDelay cfg (retryAttemptsOf st sid + 1))) \<and>
         (ex = AlreadyInProgress \<longrightarrow> st' = st \<and> evs = [])"
proof (cases "sid \<in> compactionInProgress st")
  case True
  with assms have "ex = AlreadyInProgress" "st' = st" "evs = []"
    by (simp_all add: executeCompact_in_progress)
  then show ?thesis by simp
next
  case False
  let ?st0 = "st\<lparr>compactionInProgress := insert sid (compactionInProgress st)\<rparr>"
  have cnt: "truncateAttemptsOf ?st0 sid = truncateAttemptsOf st sid"
    "retryAttemptsOf ?st0 sid = retryAttemptsOf st sid"
    "revertAttemptsOf ?st0 sid = revertAttemptsOf st sid"
    by (simp_all add: executor_counters)
  obtain r1 st1 ev1 where t: "truncateTier cfg env sid ?st0 = (r1, st1, ev1)"
    by (cases "truncateTier cfg env sid ?st0") auto
  show ?thesis
  proof (cases r1)
    case (Some x)
    with assms False t have e: "ex = x" "st' = st1" "evs = ev1"
      by (simp_all add: executeCompact_def)
    from truncateTier_Some[OF t[unfolded Some]] cnt
    have "x = TruncatedOutput" "truncateStateBySession st1 sid \<noteq> None"
      "truncateAttemptsOf st1 sid = truncateAttemptsOf st sid + 1"
      "sid \<notin> compactionInProgress st1" "last ev1 = ContinueLater 500"
      by simp_all
    with e show ?thesis by simp
  next
    case None
    note r1 = this
    from truncateTier_None[OF t[unfolded None]]
    have st1: "st1 = snd (getOrCreateTruncateState ?st0 sid)" and c1: "filter isContinue ev1 = []"
      by simp_all
    have rec1: "truncateStateBySession st1 sid \<noteq> None"
      "compactionInProgress st1 = insert sid (compactionInProgress st)"
      "retryAttemptsOf st1 sid = retryAttemptsOf st sid"
      "revertAttemptsOf st1 sid = revertAttemptsOf st sid"
      using truncate_record_created[of ?st0 sid] st1
      by (simp_all add: executor_counters)
    obtain r2 st2 ev2 where s: "summarizeTier cfg env sid st1 = (r2, st2, ev2)"
      by (cases "summarizeTier cfg env sid st1") auto
    show ?thesis
    proof (cases r2)
      case (Some x)
      with assms False t r1 s have e: "ex = x" "st' = st2" "evs = ev1 @ ev2"
        by (simp_all add: executeCompact_def)
      from summarizeTier_Some[OF s[unfolded Some]]
      consider (ok) "x = Summarized" "sessionCleared st2 sid" "last ev2 = ContinueLater 500"
        | (again) "x = SummarizeRetryScheduled"
            "retryAttemptsOf st2 sid = retryAttemptsOf st1 sid + 1"
            "compactionInProgress st2 = compactionInProgress st1 - {sid}"
            "last ev2 = ExecuteCompactLater (cappedDelay cfg (retryAttemptsOf st1 sid + 1))"
        by blast
      then show ?thesis
      proof cases
        case ok
        from s Some have "ev2 \<noteq> []"
          by (auto simp: summarizeTier_def Let_def split: prod.splits if_splits)
        with ok e show ?thesis by simp
      next
        case again
        from s Some again(1) have ne: "ev2 \<noteq> []"
          by (auto simp: summarizeTier_def Let_def split: prod.splits if_splits)
        from again(2) have "retryStateBySession st2 sid \<noteq> None"
          by (auto simp: retryAttemptsOf_def split: option.splits)
        with again e ne rec1 show ?thesis by simp
      qed
    next
      case None
      note r2 = this
      from summarizeTier_None[OF s[unfolded None]] rec1
      have rec2: "ev2 = []" "retryStateBySession st2 sid \<noteq> None"
        "truncateStateBySession st2 sid \<noteq> None"
        "compactionInProgress st2 = insert sid (compactionInProgress st)"
        "revertAttemptsOf st2 sid = revertAttemptsOf st sid"
        by (simp_all add: executor_counters)
      obtain r3 st3 ev3 where v: "revertTier cfg env sid st2 = (r3, st3, ev3)"
        by (cases "revertTier cfg env sid st2") auto
      show ?thesis
      proof (cases r3)
        case (Some x)
        with assms False t r1 s r2 v have e: "ex = x" "st' = st3" "evs = ev1 @ ev2 @ ev3"
          by (simp_all add: executeCompact_def)
        from v Some have ne: "ev3 \<noteq> []"
          by (auto simp: revertTier_def Let_def split: prod.splits if_splits option.splits)
        from revertTier_Some[OF v[unfolded Some] rec2(2,3)] rec2(4,5)
        have "x = RevertedPair" "fallbackStateBySession st3 sid \<noteq> None"
          "revertAttemptsOf st3 sid = revertAttemptsOf st sid + 1"
          "retryStateBySession st3 sid \<noteq> None" "retryAttemptsOf st3 sid = 0"
          "truncateStateBySession st3 sid \<noteq> None" "truncateAttemptsOf st3 sid = 0"
          "sid \<notin> compactionInProgress st3"
          "last ev3 = ExecuteCompactLater 1000" "filter isContinue ev3 = []"
          by simp_all
        with e ne rec2(1) c1 show ?thesis by simp
      next
        case None
        with assms False t r1 s r2 v
        have e: "ex = GaveUp" "st' = clearSessionState st3 sid" "evs = ev1 @ ev2 @ ev3 @ [failureToast]"
          by (simp_all add: executeCompact_def)
        from revertTier_None[OF v[unfolded None]] c1 rec2(1) e
        show ?thesis
          by (simp add: sessionCleared_clear isContinue_def failureToast_def)
      qed
    qed
  qed
qed

lemma truncateTier_fst:
  "fst (truncateTier cfg env sid st)
     = (if truncationApplies cfg env st sid then Some TruncatedOutput else None)"
  by (auto simp: truncateTier_def getOrCreateTruncateState_def truncateAttemptsOf_def
      truncationApplies_def split: option.splits)

lemma summarizeTier_fst:
  "fst (summarizeTier cfg env sid st)
     = (if summarizeApplies cfg env st sid
        then Some (if summarizeFails env then SummarizeRetryScheduled else Summarized) else None)"
  by (auto simp: summarizeTier_def getOrCreateRetryState_def retryAttemptsOf_def Let_def
      summarizeApplies_def split: option.splits)

lemma revertTier_fst:
  "fst (revertTier cfg env sid st)
     = (if revertApplies cfg env st sid then Some RevertedPair else None)"
  by (auto simp: revertTier_def getOrCreateFallbackState_def revertAttemptsOf_def Let_def
      revertApplies_def split: option.splits)

lemma executeCompact_exit:
  assumes "sid \<notin> compactionInProgress st"
  shows "fst (executeCompact cfg env sid st)
     = (if truncationApplies cfg env st sid then TruncatedOutput
        else if summarizeApplies cfg env st sid
          then (if summarizeFails env then SummarizeRetryScheduled else Summarized)
        else if revertApplies cfg env st sid then RevertedPair
        else GaveUp)"
proof -
  let ?st0 = "st\<lparr>compactionInProgress := insert sid (compactionInProgress st)\<rparr>"
  obtain r1 st1 ev1 where t: "truncateTier cfg env sid ?st0 = (r1, st1, ev1)"
    by (cases "truncateTier cfg env sid ?st0") auto
  have a0: "truncationApplies cfg env ?st0 sid = truncationApplies cfg env st sid"
    by (simp add: truncationApplies_def truncateAttemptsOf_def)
  from truncateTier_fst[of cfg env sid ?st0] t a0
  have r1: "r1 = (if truncationApplies cfg env st sid then Some TruncatedOutput else None)"
    by simp
  show ?thesis
  proof (cases "truncationApplies cfg env st sid")
    case True
    with assms t r1 show ?thesis by (simp add: executeCompact_def)
  next
    case False
    with r1 have n1: "r1 = None" by simp
    from truncateTier_None[OF t[unfolded n1]]
    have st1: "st1 = snd (getOrCreateTruncateState ?st0 sid)" by simp
    obtain r2 st2 ev2 where u: "summarizeTier cfg env sid st1 = (r2, st2, ev2)"
      by (cases "summarizeTier cfg env sid st1") auto
    have a1: "summarizeApplies cfg env st1 sid = summarizeApplies cfg env st sid"
      "fallbackStateBySession st1 = fallbackStateBySession st"
      unfolding st1
      by (simp_all add: summarizeApplies_def retryAttemptsOf_def getOrCreateTruncateState_def
          split: option.splits)
    from summarizeTier_fst[of cfg env sid st1] u a1
    have r2: "r2 = (if summarizeApplies cfg env st sid
        then Some (if summarizeFails env then SummarizeRetryScheduled else Summarized) else None)"
      by simp
    show ?thesis
    proof (cases "summarizeApplies cfg env st sid")
      case True
      with assms False t n1 u r2 show ?thesis by (simp add: executeCompact_def)
    next
      case s: False
      with r2 have n2: "r2 = None" by simp
      from summarizeTier_None[OF u[unfolded n2]] a1(2)
      have "fallbackStateBySession st2 = fallbackStateBySession st" by simp
      then have a2: "revertApplies cfg env st2 sid = revertApplies cfg env st sid"
        by (simp add: revertApplies_def revertAttemptsOf_def)
      obtain r3 st3 ev3 where v: "revertTier cfg env sid st2 = (r3, st3, ev3)"
        by (cases "revertTier cfg env sid st2") auto
      from revertTier_fst[of cfg env sid st2] v a2
      have r3: "r3 = (if revertApplies cfg env st sid then Some RevertedPair else None)"
        by simp
      from assms False s t n1 u n2 v r3 show ?thesis
        by (simp add: executeCompact_def)
    qed
  qed
qed

lemma summarize_called:
  assumes "sid \<notin> compactionInProgress st" "\<not> truncationApplies cfg env st sid"
    and "summarizeApplies cfg env st sid"
  shows "SummarizeSession (the (msgProviderID env)) (the (msgModelID env))
           \<in> set (snd (snd (executeCompact cfg env sid st)))"
proof -
  let ?st0 = "st\<lparr>compactionInProgress := insert sid (compactionInProgress st)\<rparr>"
  obtain r1 st1 ev1 where t: "truncateTier cfg env sid ?st0 = (r1, st1, ev1)"
    by (cases "truncateTier cfg env sid ?st0") auto
  have "truncationApplies cfg env ?st0 sid = truncationApplies cfg env st sid"
    by (simp add: truncationApplies_def truncateAttemptsOf_def)
  with truncateTier_fst[of cfg env sid ?st0] t assms(2) have n1: "r1 = None" by simp
  from truncateTier_None[OF t[unfolded n1]]
  have st1: "st1 = snd (getOrCreateTruncateState ?st0 sid)" by simp
  have "retryAttemptsOf st1 sid = retryAttemptsOf ?st0 sid"
    unfolding st1 by (rule retry_after_truncate_record)
  then have "retryAttemptsOf st1 sid = retryAttemptsOf st sid"
    by (simp add: retryAttemptsOf_def)
  with assms(3) have "retryAttemptsOf st1 sid < maxAttempts cfg"
    "\<not> falsy (msgProviderID env)" "\<not> falsy (msgModelID env)"
    by (simp_all add: summarizeApplies_def)
  from summarizeTier_first_call[OF this] obtain r st2 e3 where
    "summarizeTier cfg env sid st1 =
       (Some r, st2,
        [ShowToast ''Auto Compact''
           (SummarizingAttempt (retryAttemptsOf st1 sid + 1) (maxAttempts cfg)) ''warning'' 3000,
         SummarizeSession (the (msgProviderID env)) (the (msgModelID env)), e3])"
    by blast
  with assms(1) t n1 show ?thesis by (simp add: executeCompact_def)
qed

text \<open>
  C5, amended. For an invocation that passes the single-flight guard, the counters of
  the session and the surroundings decide. The six per-session records are removed in
  two cases: when the summarize tier acts and \<open>session.summarize\<close> succeeds, after which
  the \<open>Continue\<close> prompt is scheduled, and when no tier acts (every tier exhausted or
  unable to act), after which the failure toast is shown and nothing is scheduled. A
  successful revert removes nothing: the fallback record stays with its counter raised by
  one, the retry and truncate records stay with their counters reset to 0, the
  in-progress flag is released and the whole chain is scheduled again after 1000 ms,
  with no continuation sent. A successful truncation keeps the truncate record with its
  counter raised by one, releases the flag and schedules \<open>Continue\<close>; a failed summarize
  keeps the retry record with its counter raised by one, releases the flag and schedules
  the chain again after the capped backoff delay.
\<close>

theorem records_cleared_on_summarize_or_exhaustion_only:
  assumes "sid \<notin> compactionInProgress st"
    and "executeCompact cfg env sid st = (ex, st', evs)"
  shows "(truncationApplies cfg env st sid \<longrightarrow>
            ex = TruncatedOutput \<and> \<not> sessionCleared st' sid \<and>
            truncateAttemptsOf st' sid = truncateAttemptsOf st sid + 1 \<and>
            sid \<notin> compactionInProgress st' \<and> last evs = ContinueLater 500) \<and>
         (\<not> truncationApplies cfg env st sid \<and> summarizeApplies cfg env st sid \<and>
          \<not> summarizeFails env \<longrightarrow>
            ex = Summarized \<and> sessionCleared st' sid \<and>
            SummarizeSession (the (msgProviderID env)) (the (msgModelID env)) \<in> set evs \<and>
            last evs = ContinueLater 500) \<and>
         (\<not> truncationApplies cfg env st sid \<and> summarizeApplies cfg env st sid \<and>
          summarizeFails env \<longrightarrow>
            ex = SummarizeRetryScheduled \<and> \<not> sessionCleared st' sid \<and>
            retryAttemptsOf st' sid = retryAttemptsOf st sid + 1 \<and>
            sid \<notin> compactionInProgress st' \<and>
            last evs = ExecuteCompactLater (cappedDelay cfg (retryAttemptsOf st sid + 1))) \<and>
         (\<not> truncationApplies cfg env st sid \<and> \<not> summarizeApplies cfg env st sid \<and>
          revertApplies cfg env st sid \<longrightarrow>
            ex = RevertedPair \<and> \<not> sessionCleared st' sid \<and>
            fallbackStateBySession st' sid \<noteq> None \<and>
            revertAttemptsOf st' sid = revertAttemptsOf st sid + 1 \<and>
            retryStateBySession st' sid \<noteq> None \<and> retryAttemptsOf st' sid = 0 \<and>
            truncateStateBySession st' sid \<noteq> None \<and> truncateAttemptsOf st' sid = 0 \<and>
            sid \<notin> compactionInProgress st' \<and>
            last evs = ExecuteCompactLater 1000 \<and> filter isContinue evs = []) \<and>
         (\<not> truncationApplies cfg env st sid \<and> \<not> summarizeApplies cfg env st sid \<and>
          \<not> revertApplies cfg env st sid \<longrightarrow>
            ex = GaveUp \<and> sessionCleared st' sid \<and> last evs = failureToast \<and>
            filter isContinue evs = [])"
proof -
  note x = executeCompact_exit[OF assms(1), of cfg env, unfolded assms(2), simplified]
  note b = executeCompact_by_exit[OF assms(2)]
  have nc: "\<not> sessionCleared st' sid"
    if "truncateStateBySession st' sid \<noteq> None \<or> retryStateBySession st' sid \<noteq> None"
    using that by (auto simp: sessionCleared_def)
  have 1: "ex = TruncatedOutput \<and> \<not> sessionCleared st' sid \<and>
            truncateAttemptsOf st' sid = truncateAttemptsOf st sid + 1 \<and>
            sid \<notin> compactionInProgress st' \<and> last evs = ContinueLater 500"
    if "truncationApplies cfg env st sid"
    using that x b nc by simp
  have 2: "ex = Summarized \<and> sessionCleared st' sid \<and>
            SummarizeSession (the (msgProviderID env)) (the (msgModelID env)) \<in> set evs \<and>
            last evs = ContinueLater 500"
    if "\<not> truncationApplies cfg env st sid" "summarizeApplies cfg env st sid" "\<not> summarizeFails env"
    using that x b summarize_called[OF assms(1) that(1,2), unfolded assms(2)] by simp
  have 3: "ex = SummarizeRetryScheduled \<and> \<not> sessionCleared st' sid \<and>
            retryAttemptsOf st' sid = retryAttemptsOf st sid + 1 \<and>
            sid \<notin> compactionInProgress st' \<and>
            last evs = ExecuteCompactLater (cappedDelay cfg (retryAttemptsOf st sid + 1))"
    if "\<not> truncationApplies cfg env st sid" "summarizeApplies cfg env st sid" "summarizeFails env"
    using that x b nc by simp
  have 4: "ex = RevertedPair \<and> \<not> sessionCleared st' sid \<and>
            fallbackStateBySession st' sid \<noteq> None \<and>
            revertAttemptsOf st' sid = revertAttemptsOf st sid + 1 \<and>
            retryStateBySession st' sid \<noteq> None \<and> retryAttemptsOf st' sid = 0 \<and>
            truncateStateBySession st' sid \<noteq> None \<and> truncateAttemptsOf st' sid = 0 \<and>
            sid \<notin> compactionInProgress st' \<and>
            last evs = ExecuteCompactLater 1000 \<and> filter isContinue evs = []"
    if "\<not> truncationApplies cfg env st sid" "\<not> summarizeApplies cfg env st sid"
      "revertApplies cfg env st sid"
    using that x b nc by simp
  have 5: "ex = GaveUp \<and> sessionCleared st' sid \<and> last evs = failureToast \<and>
            filter isContinue evs = []"
    if "\<not> truncationApplies cfg env st sid" "\<not> summarizeApplies cfg env st sid"
      "\<not> revertApplies cfg env st sid"
    using that x b by simp
  from 1 2 3 4 5 show ?thesis by blast
qed

theorem records_cleared_witness:
  "\<not> truncationApplies cfgExecutor envSummarizeOk stateTruncateExhausted ''ses_1'' \<and>
   summarizeApplies cfgExecutor envSummarizeOk stateTruncateExhausted ''ses_1'' \<and>
   executeCompact cfgExecutor envSummarizeOk ''ses_1'' stateTruncateExhausted =
     (Summarized, stateEmpty,
      [ShowToast ''Auto Compact'' (SummarizingAttempt 1 2) ''warning'' 3000,
       SummarizeSession ''anthropic'' ''claude-opus-4'', ContinueLater 500]) \<and>
   sessionCleared stateEmpty ''ses_1'' \<and>
   \<not> summarizeApplies cfgExecutor envSummarizeOk stateRevertLeft ''ses_1'' \<and>
   revertApplies cfgExecutor envSummarizeOk stateRevertLeft ''ses_1'' \<and>
   fst (executeCompact cfgExecutor envSummarizeOk ''ses_1'' stateRevertLeft) = RevertedPair \<and>
   revertAttemptsOf (fst (snd (executeCompact cfgExecutor envSummarizeOk ''ses_1'' stateRevertLeft))) ''ses_1''
     = 1"
proof -
  let ?b = "executeCompact cfgExecutor envSummarizeOk ''ses_1'' stateRevertLeft"
  have a: "executeCompact cfgExecutor envSummarizeOk ''ses_1'' stateTruncateExhausted =
     (Summarized, stateEmpty,
      [ShowToast ''Auto Compact'' (SummarizingAttempt 1 2) ''warning'' 3000,
       SummarizeSession ''anthropic'' ''claude-opus-4'', ContinueLater 500])"
    by (simp add: executor_defs falsy_def Let_def
        stateTruncateExhausted_def stateEmpty_def cfgExecutor_def envSummarizeOk_def)
  have g: "''ses_1'' \<notin> compactionInProgress stateTruncateExhausted"
    "''ses_1'' \<notin> compactionInProgress stateRevertLeft"
    by (simp_all add: stateTruncateExhausted_def stateRevertLeft_def stateEmpty_def)
  have i: "\<not> truncationApplies cfgExecutor envSummarizeOk stateTruncateExhausted ''ses_1''"
    "summarizeApplies cfgExecutor envSummarizeOk stateTruncateExhausted ''ses_1''"
    "\<not> summarizeFails envSummarizeOk"
    "\<not> truncationApplies cfgExecutor envSummarizeOk stateRevertLeft ''ses_1''"
    "\<not> summarizeApplies cfgExecutor envSummarizeOk stateRevertLeft ''ses_1''"
    "revertApplies cfgExecutor envSummarizeOk stateRevertLeft ''ses_1''"
    by (simp_all add: truncationApplies_def summarizeApplies_def revertApplies_def
        executor_counters getLastMessagePair_def falsy_def Let_def
        stateTruncateExhausted_def stateRevertLeft_def stateEmpty_def cfgExecutor_def
        envSummarizeOk_def)
  have b: "?b = (fst ?b, fst (snd ?b), snd (snd ?b))"
    by simp
  have r: "revertAttemptsOf stateRevertLeft ''ses_1'' = 0"
    by (simp add: stateRevertLeft_def stateEmpty_def revertAttemptsOf_def)
  from records_cleared_on_summarize_or_exhaustion_only[OF g(2) b] i(4,5,6) r
  have rb: "fst ?b = RevertedPair" "revertAttemptsOf (fst (snd ?b)) ''ses_1'' = 1"
    by simp_all
  from records_cleared_on_summarize_or_exhaustion_only[OF g(1) a] i(1,2,3)
  have ca: "sessionCleared stateEmpty ''ses_1''"
    by simp
  from a ca rb i show ?thesis
    by simp
qed

section \<open>Theorems: orchestrator delegate hook\<close>

lemma SINGLE_TASK_MARKER_chars: "CHR ''\<newline>'' \<notin> set SINGLE_TASK_MARKER" "SINGLE_TASK_MARKER \<noteq> []"
  by (simp_all add: SINGLE_TASK_MARKER_def)

lemma occurrences_reminder: "occurrences SINGLE_TASK_MARKER singleTaskReminder = 1"
  by (simp add: occurrences_def singleTaskReminder_def SINGLE_TASK_DIRECTIVE_def SINGLE_TASK_MARKER_def)

lemma prefix_before_foreign_char:
  assumes "prefix m (xs @ c # s)" "c \<notin> set m"
  shows "prefix m xs"
proof -
  from assms(1) consider "prefix m xs" | us where "m = xs @ us" "prefix us (c # s)"
    by (auto simp: prefix_append)
  then show ?thesis
  proof cases
    case 1
    then show ?thesis .
  next
    case 2
    with assms(2) have "us = []" by (cases us) auto
    with 2 show ?thesis by simp
  qed
qed

lemma occurrencesFrom_absent:
  "\<not> sublist m s \<Longrightarrow> occurrencesFrom k m s = 0"
  by (induction s arbitrary: k) (auto simp: sublist_Cons_right)

lemma occurrencesFrom_present:
  "0 < occurrencesFrom k m s \<Longrightarrow> sublist m s"
proof (induction s arbitrary: k)
  case Nil
  then show ?case by simp
next
  case (Cons c cs)
  show ?case
  proof (cases "k = 0 \<and> prefix m (c # cs)")
    case True
    then show ?thesis by (simp add: sublist_Cons_right)
  next
    case False
    with Cons.prems have "0 < occurrencesFrom (k - 1) m cs" by auto
    from Cons.IH[OF this] show ?thesis by (simp add: sublist_Cons_right)
  qed
qed

lemma occurrencesFrom_skip_absent_prefix:
  assumes "\<not> sublist m p" "c \<notin> set m"
  shows "occurrencesFrom 0 m (p @ c # s) = occurrencesFrom 0 m (c # s)"
  using assms(1)
proof (induction p)
  case Nil
  then show ?case by simp
next
  case (Cons a p)
  then have np: "\<not> prefix m (a # p)" and ns: "\<not> sublist m p"
    by (simp_all add: sublist_Cons_right)
  from np prefix_before_foreign_char[of m "a # p" c s] assms(2)
  have "\<not> prefix m ((a # p) @ c # s)" by blast
  with Cons.IH[OF ns] show ?case by simp
qed

lemma reminder_starts_with_newline:
  "singleTaskReminder = CHR ''\<newline>'' # tl singleTaskReminder"
  by (simp add: singleTaskReminder_def)

lemma occurrences_after_injection:
  assumes "\<not> sublist SINGLE_TASK_MARKER p"
  shows "occurrences SINGLE_TASK_MARKER (p @ singleTaskReminder) = 1"
proof -
  have "occurrences SINGLE_TASK_MARKER (p @ CHR ''\<newline>'' # tl singleTaskReminder)
      = occurrences SINGLE_TASK_MARKER (CHR ''\<newline>'' # tl singleTaskReminder)"
    unfolding occurrences_def
    by (rule occurrencesFrom_skip_absent_prefix[OF assms SINGLE_TASK_MARKER_chars(1)])
  then show ?thesis
    using reminder_starts_with_newline occurrences_reminder by simp
qed

lemma reminder_contains_marker: "sublist SINGLE_TASK_MARKER (p @ singleTaskReminder)"
proof -
  have "0 < occurrencesFrom 0 SINGLE_TASK_MARKER singleTaskReminder"
    using occurrences_reminder by (simp add: occurrences_def)
  from occurrencesFrom_present[OF this] show ?thesis
    by (simp add: sublist_append)
qed

lemma orchestratorBefore_task_unchanged:
  assumes "falsy (argPrompt (args out)) \<or> sublist SINGLE_TASK_MARKER (the (argPrompt (args out)))"
  shows "orchestratorBefore w True ''sisyphus_task'' cid (pend, out) = (pend, out)"
  using assms by (auto simp: orchestratorBefore_def WRITE_EDIT_TOOLS_def)

lemma orchestratorBefore_task_injects:
  assumes "argPrompt (args out) = Some p" "p \<noteq> []" "\<not> sublist SINGLE_TASK_MARKER p"
  shows "orchestratorBefore w True ''sisyphus_task'' cid (pend, out) =
           (pend, out\<lparr>args := (args out)\<lparr>argPrompt := Some (p @ singleTaskReminder)\<rparr>\<rparr>)"
  using assms by (simp add: orchestratorBefore_def WRITE_EDIT_TOOLS_def falsy_def)

lemma orchestratorBefore_task_idempotent:
  "orchestratorBefore w True ''sisyphus_task'' cid
     (orchestratorBefore w True ''sisyphus_task'' cid st)
   = orchestratorBefore w True ''sisyphus_task'' cid st"
proof (cases st)
  case (Pair pend out)
  show ?thesis
  proof (cases "falsy (argPrompt (args out)) \<or> sublist SINGLE_TASK_MARKER (the (argPrompt (args out)))")
    case True
    with Pair show ?thesis by (simp add: orchestratorBefore_task_unchanged)
  next
    case False
    then obtain p where p: "argPrompt (args out) = Some p" "p \<noteq> []" "\<not> sublist SINGLE_TASK_MARKER p"
      by (auto simp: falsy_def split: option.splits)
    have "sublist SINGLE_TASK_MARKER
            (the (argPrompt (args (out\<lparr>args := (args out)\<lparr>argPrompt := Some (p @ singleTaskReminder)\<rparr>\<rparr>))))"
      by (simp add: reminder_contains_marker)
    then show ?thesis
      unfolding Pair orchestratorBefore_task_injects[OF p]
      by (rule orchestratorBefore_task_unchanged[OF disjI2])
  qed
qed

lemma annotatePrompt_idempotent:
  assumes "sublist (SYSTEM_DIRECTIVE_PREFIX h) (readOnlyWarning h)"
  shows "annotatePrompt h (annotatePrompt h q) = annotatePrompt h q"
  using assms by (auto simp: annotatePrompt_def sublist_append split: option.splits)

text \<open>
  C8, as stated, at a prompt that already quotes the single-task marker twice: the hook
  finds the marker and leaves the prompt as it is, with both occurrences, however often
  it is applied.
\<close>

theorem prompt_quoting_marker_twice_keeps_two:
  "sublist SINGLE_TASK_MARKER promptQuotingMarkerTwice \<and>
   promptOf (orchestratorBefore plainWarning True ''sisyphus_task'' None
      (orchestratorBefore plainWarning True ''sisyphus_task'' None (delegateCall promptQuotingMarkerTwice)))
     = Some promptQuotingMarkerTwice \<and>
   occurrences SINGLE_TASK_MARKER promptQuotingMarkerTwice = 2"
proof -
  have s: "sublist SINGLE_TASK_MARKER promptQuotingMarkerTwice"
    by (simp add: promptQuotingMarkerTwice_def sublist_append)
  have u: "orchestratorBefore plainWarning True ''sisyphus_task'' None (delegateCall promptQuotingMarkerTwice)
      = delegateCall promptQuotingMarkerTwice"
    unfolding delegateCall_def
    by (rule orchestratorBefore_task_unchanged) (simp add: s)
  have o: "occurrences SINGLE_TASK_MARKER promptQuotingMarkerTwice = 2"
    by (simp add: occurrences_def promptQuotingMarkerTwice_def SINGLE_TASK_MARKER_def)
  from s u o show ?thesis
    by (simp add: promptOf_def delegateCall_def)
qed

text \<open>
  C8, amended. The orchestrator's hook on a \<open>sisyphus_task\<close> call: a prompt that contains
  the marker \<open>[SYSTEM DIRECTIVE - SINGLE TASK ONLY]\<close> is left as it is, so a prompt with
  exactly one occurrence keeps exactly one; to a non-empty prompt without the marker the
  directive is appended, and the result contains the marker exactly once; an empty or
  missing prompt is left alone; in every case applying the hook twice gives what applying
  it once gives. The planner's hook (modelled from the specification, the marker and the
  warning text being parameters, the warning containing the marker): a prompt that
  contains the marker is left as it is, and annotating twice gives what annotating once
  gives.
\<close>

theorem directive_injection_idempotent:
  "(sublist SINGLE_TASK_MARKER p \<and> argPrompt (args out) = Some p \<longrightarrow>
      orchestratorBefore w True ''sisyphus_task'' cid (pend, out) = (pend, out)) \<and>
   (p \<noteq> [] \<and> \<not> sublist SINGLE_TASK_MARKER p \<and> argPrompt (args out) = Some p \<longrightarrow>
      promptOf (orchestratorBefore w True ''sisyphus_task'' cid (pend, out))
        = Some (p @ singleTaskReminder) \<and>
      occurrences SINGLE_TASK_MARKER (p @ singleTaskReminder) = 1) \<and>
   (occurrences SINGLE_TASK_MARKER p = 1 \<and> argPrompt (args out) = Some p \<longrightarrow>
      promptOf (orchestratorBefore w True ''sisyphus_task'' cid (pend, out)) = Some p) \<and>
   (falsy (argPrompt (args out)) \<longrightarrow>
      orchestratorBefore w True ''sisyphus_task'' cid (pend, out) = (pend, out)) \<and>
   orchestratorBefore w True ''sisyphus_task'' cid
     (orchestratorBefore w True ''sisyphus_task'' cid st)
     = orchestratorBefore w True ''sisyphus_task'' cid st \<and>
   (sublist (SYSTEM_DIRECTIVE_PREFIX h) q \<longrightarrow> annotatePrompt h (Some q) = Some q) \<and>
   (sublist (SYSTEM_DIRECTIVE_PREFIX h) (readOnlyWarning h) \<longrightarrow>
      annotatePrompt h (annotatePrompt h r) = annotatePrompt h r)"
proof -
  have a: "orchestratorBefore w True ''sisyphus_task'' cid (pend, out) = (pend, out)"
    if "sublist SINGLE_TASK_MARKER p" "argPrompt (args out) = Some p"
    using that by (intro orchestratorBefore_task_unchanged) simp
  have b: "promptOf (orchestratorBefore w True ''sisyphus_task'' cid (pend, out))
        = Some (p @ singleTaskReminder) \<and>
      occurrences SINGLE_TASK_MARKER (p @ singleTaskReminder) = 1"
    if "p \<noteq> []" "\<not> sublist SINGLE_TASK_MARKER p" "argPrompt (args out) = Some p"
    using that
    by (simp add: orchestratorBefore_task_injects occurrences_after_injection promptOf_def)
  have c: "promptOf (orchestratorBefore w True ''sisyphus_task'' cid (pend, out)) = Some p"
    if "occurrences SINGLE_TASK_MARKER p = 1" "argPrompt (args out) = Some p"
  proof -
    from that(1) have "0 < occurrencesFrom 0 SINGLE_TASK_MARKER p"
      by (simp add: occurrences_def)
    from occurrencesFrom_present[OF this] a that(2) show ?thesis
      by (simp add: promptOf_def)
  qed
  have d: "orchestratorBefore w True ''sisyphus_task'' cid (pend, out) = (pend, out)"
    if "falsy (argPrompt (args out))"
    using that by (intro orchestratorBefore_task_unchanged) simp
  have e: "annotatePrompt h (Some q) = Some q" if "sublist (SYSTEM_DIRECTIVE_PREFIX h) q"
    using that by (simp add: annotatePrompt_def)
  from a b c d e orchestratorBefore_task_idempotent annotatePrompt_idempotent
  show ?thesis by blast
qed

theorem directive_injection_witness:
  "promptOf (orchestratorBefore plainWarning True ''sisyphus_task'' None (delegateCall ''Implement this feature''))
     = Some (''Implement this feature'' @ singleTaskReminder) \<and>
   occurrences SINGLE_TASK_MARKER (''Implement this feature'' @ singleTaskReminder) = 1 \<and>
   orchestratorBefore plainWarning True ''sisyphus_task'' None
     (delegateCall (''Implement this feature'' @ singleTaskReminder))
     = delegateCall (''Implement this feature'' @ singleTaskReminder)"
proof -
  have n: "\<not> sublist SINGLE_TASK_MARKER ''Implement this feature''" "''Implement this feature'' \<noteq> []"
    by (simp_all add: SINGLE_TASK_MARKER_def sublist_code(3))
  have s: "sublist SINGLE_TASK_MARKER (''Implement this feature'' @ singleTaskReminder)"
    by (rule reminder_contains_marker)
  from directive_injection_idempotent[of "''Implement this feature''"
      "snd (delegateCall ''Implement this feature'')" plainWarning None Map.empty] n
  have 1: "promptOf (orchestratorBefore plainWarning True ''sisyphus_task'' None (delegateCall ''Implement this feature''))
     = Some (''Implement this feature'' @ singleTaskReminder) \<and>
   occurrences SINGLE_TASK_MARKER (''Implement this feature'' @ singleTaskReminder) = 1"
    by (simp add: delegateCall_def)
  from directive_injection_idempotent[of "''Implement this feature'' @ singleTaskReminder"
      "snd (delegateCall (''Implement this feature'' @ singleTaskReminder))" plainWarning None Map.empty] s
  have 2: "orchestratorBefore plainWarning True ''sisyphus_task'' None
     (delegateCall (''Implement this feature'' @ singleTaskReminder))
     = delegateCall (''Implement this feature'' @ singleTaskReminder)"
    by (simp add: delegateCall_def)
  from 1 2 show ?thesis by simp
qed

section \<open>Theorems: markdown-only write guard\<close>

lemma toLowerCase_literals:
  "toLowerCase ''.SISYPHUS'' = ''.sisyphus''" "toLowerCase ''.sisyphus'' = ''.sisyphus''"
  "toLowerCase ''plans'' = ''plans''" "toLowerCase ''x.MD'' = ''x.md''"
  "toLowerCase ''x.md'' = ''x.md''" "toLowerCase ''secrets.md'' = ''secrets.md''"
  "toLowerCase ''README.md'' = ''readme.md''" "toLowerCase ''tmp'' = ''tmp''"
  "toLowerCase ''proj'' = ''proj''" "toLowerCase ''src'' = ''src''"
  by (simp_all add: toLowerCase_def toLowerChar_def)

lemma toLowerCase_append: "toLowerCase (a @ b) = toLowerCase a @ toLowerCase b"
  by (simp add: toLowerCase_def)

lemma foldl_resolveSegment_from:
  "\<exists>k. foldl resolveSegment S segs = foldl resolveSegment [] segs @ drop k S"
proof (induction segs rule: rev_induct)
  case Nil
  have "foldl resolveSegment S [] = foldl resolveSegment [] [] @ drop 0 S" by simp
  then show ?case by blast
next
  case (snoc x xs)
  then obtain k where k: "foldl resolveSegment S xs = foldl resolveSegment [] xs @ drop k S"
    by blast
  let ?T = "foldl resolveSegment [] xs"
  show ?case
  proof (cases "x = [] \<or> x = ''.''")
    case True
    with k have "foldl resolveSegment S (xs @ [x]) = foldl resolveSegment [] (xs @ [x]) @ drop k S"
      by (auto simp: resolveSegment_def)
    then show ?thesis by blast
  next
    case False
    note plain = this
    show ?thesis
    proof (cases "x = ''..''")
      case True
      show ?thesis
      proof (cases ?T)
        case Nil
        have d: "drop (Suc k) S = tl (drop k S)"
          by (simp add: drop_Suc drop_tl)
        from k True Nil have "foldl resolveSegment S (xs @ [x]) = foldl resolveSegment [] (xs @ [x]) @ drop (Suc k) S"
          unfolding d by (cases "drop k S") (simp_all add: resolveSegment_def)
        then show ?thesis by blast
      next
        case (Cons t ts)
        with k True have "foldl resolveSegment S (xs @ [x]) = foldl resolveSegment [] (xs @ [x]) @ drop k S"
          by (auto simp: resolveSegment_def)
        then show ?thesis by blast
      qed
    next
      case False
      with k plain have "foldl resolveSegment S (xs @ [x]) = foldl resolveSegment [] (xs @ [x]) @ drop k S"
        by (auto simp: resolveSegment_def)
      then show ?thesis by blast
    qed
  qed
qed

lemma relativeComponents_subset:
  assumes "relativeComponents wsRoot p = Some cs"
  shows "set cs \<subseteq> set (normalizedComponents p)"
proof (cases "isAbsolutePath p")
  case True
  with assms have "cs = drop (length (normalizedComponents wsRoot)) (normalizedComponents p)"
    by (auto simp: relativeComponents_def resolvedComponents_def split: if_splits)
  then show ?thesis by (simp add: set_drop_subset)
next
  case False
  let ?R = "normalizedComponents wsRoot"
  from foldl_resolveSegment_from[of "rev ?R" "segments p"] obtain k where
    k: "foldl resolveSegment (rev ?R) (segments p) = foldl resolveSegment [] (segments p) @ drop k (rev ?R)"
    by blast
  have res: "resolvedComponents wsRoot p = rev (drop k (rev ?R)) @ normalizedComponents p"
    using False k by (simp add: resolvedComponents_def normalizedComponents_def)
  have len: "length (rev (drop k (rev ?R))) \<le> length ?R" by simp
  from assms have "cs = drop (length ?R) (resolvedComponents wsRoot p)"
    by (auto simp: relativeComponents_def split: if_splits)
  with res len have "cs = drop (length ?R - length (rev (drop k (rev ?R)))) (normalizedComponents p)"
    by simp
  then show ?thesis by (simp add: set_drop_subset)
qed

lemma isAllowedFile_needs_component:
  assumes "isAllowedFile wsRoot p"
  shows "hasReservedDirectory (normalizedComponents p)"
proof -
  from assms obtain cs where cs: "relativeComponents wsRoot p = Some cs" "hasReservedDirectory cs"
    by (auto simp: isAllowedFile_def split: option.splits)
  from relativeComponents_subset[OF cs(1)] cs(2) show ?thesis
    by (auto simp: hasReservedDirectory_def list_ex_iff)
qed

lemma normalized_traversal:
  "normalizedComponents ''.sisyphus/../secrets.md'' = [''secrets.md'']"
  by (simp add: normalizedComponents_def segments_def isSeparator_def resolveSegment_def)

lemma endsWithMd_examples:
  "endsWithMd ''.sisyphus/../secrets.md''" "endsWithMd ''.SISYPHUS/plans/x.MD''"
  "endsWithMd ''/tmp/proj/.sisyphus/plans/x.md''" "endsWithMd ''/tmp/proj/README.md''"
  "\<not> endsWithMd ''/tmp/proj/src/code.ts''"
  by (simp_all add: endsWithMd_def toLowerCase_def toLowerChar_def suffix_def)

lemma normalized_proj: "normalizedComponents ''/tmp/proj'' = [''tmp'', ''proj'']"
  by (simp add: normalizedComponents_def segments_def isSeparator_def resolveSegment_def)

lemma isAllowedFile_examples:
  "isAllowedFile ''/tmp/proj'' ''.SISYPHUS/plans/x.MD''"
  "isAllowedFile ''/tmp/proj'' ''/tmp/proj/.sisyphus/plans/x.md''"
  "\<not> isAllowedFile ''/tmp/proj'' ''/tmp/proj/README.md''"
  by (simp_all add: isAllowedFile_def relativeComponents_def resolvedComponents_def normalized_proj
      isAbsolutePath_def normalizedComponents_def segments_def isSeparator_def resolveSegment_def
      hasReservedDirectory_def RESERVED_DIRECTORY_def toLowerCase_literals)

lemma upper_case_plan_allowed: "isAllowedFile wsRoot ''.SISYPHUS/plans/x.MD''"
proof -
  have "resolvedComponents wsRoot ''.SISYPHUS/plans/x.MD''
          = normalizedComponents wsRoot @ [''.SISYPHUS'', ''plans'', ''x.MD'']"
    by (simp add: resolvedComponents_def isAbsolutePath_def isSeparator_def segments_def
        resolveSegment_def)
  then show ?thesis
    by (simp add: isAllowedFile_def relativeComponents_def hasReservedDirectory_def
        RESERVED_DIRECTORY_def toLowerCase_literals)
qed

text \<open>
  C7, as stated, at a call of the delegating tool \<open>sisyphus_task\<close> by the planner, with the
  hook and the prompt of the test suite: the tool is no write or edit tool, and the call
  does not pass as it came: the read-only warning has been appended to its prompt.
\<close>

theorem planner_delegate_prompt_is_annotated:
  "''sisyphus_task'' \<notin> set WRITE_EDIT_TOOLS \<and>
   plannerBefore plannerHookOfSuite (Some PLANNER_AGENT) ''sisyphus_task''
       (promptCall ''Analyze this codebase'')
     = Inr (promptCall ''Analyze this codebase[SYSTEM DIRECTIVE] DO NOT modify any files'') \<and>
   plannerBefore plannerHookOfSuite (Some PLANNER_AGENT) ''sisyphus_task''
       (promptCall ''Analyze this codebase'')
     \<noteq> Inr (promptCall ''Analyze this codebase'')"
  by (simp add: plannerBefore_def plannerHookOfSuite_def PLANNER_AGENT_def WRITE_EDIT_TOOLS_def
      DELEGATE_TOOLS_def promptCall_def annotatePrompt_def sublist_code(3))

text \<open>
  C7, amended. For a write or edit call of the planner: a path that does not end in \<open>.md\<close>
  in any letter case is rejected with the "can only write/edit .md files" failure; a
  \<open>.md\<close> path whose normalized form has no \<open>.sisyphus\<close> component is rejected with the
  "inside the reserved directory" failure, so \<open>.sisyphus/../secrets.md\<close> is rejected while
  \<open>.SISYPHUS/plans/x.MD\<close> passes, both for every hook directory; a \<open>.md\<close> path inside the
  reserved directory of the workspace passes unchanged. A call by another agent passes
  unchanged. A call of the planner to a tool that is neither a write or edit tool nor a
  delegating tool passes unchanged. A call of the planner to a delegating tool
  (\<open>sisyphus_task\<close>, \<open>task\<close>, \<open>call_omo_agent\<close>) is never rejected, and it passes with the
  read-only warning appended to its prompt, unless the prompt already contains the
  marker or there is no prompt; its other arguments are unchanged.
\<close>

theorem planner_markdown_only_guard:
  "(agent = Some PLANNER_AGENT \<and> tool \<in> set WRITE_EDIT_TOOLS \<and> argFilePath a = Some p \<longrightarrow>
      (\<not> endsWithMd p \<longrightarrow> plannerBefore h agent tool a = Inl OnlyMarkdownFiles) \<and>
      (endsWithMd p \<and> \<not> hasReservedDirectory (normalizedComponents p) \<longrightarrow>
         plannerBefore h agent tool a = Inl OnlyInsideReservedDirectory) \<and>
      (endsWithMd p \<and> isAllowedFile (directory h) p \<longrightarrow> plannerBefore h agent tool a = Inr a)) \<and>
   plannerBefore h (Some PLANNER_AGENT) ''Write'' (writeCall ''.sisyphus/../secrets.md'')
     = Inl OnlyInsideReservedDirectory \<and>
   plannerBefore h (Some PLANNER_AGENT) ''Write'' (writeCall ''.SISYPHUS/plans/x.MD'')
     = Inr (writeCall ''.SISYPHUS/plans/x.MD'') \<and>
   (agent \<noteq> Some PLANNER_AGENT \<longrightarrow> plannerBefore h agent tool a = Inr a) \<and>
   (tool \<notin> set WRITE_EDIT_TOOLS \<and> tool \<notin> set DELEGATE_TOOLS \<longrightarrow>
      plannerBefore h agent tool a = Inr a) \<and>
   (agent = Some PLANNER_AGENT \<and> tool \<in> set DELEGATE_TOOLS \<longrightarrow>
      plannerBefore h agent tool a
        = Inr (a\<lparr>argPrompt :=
                 (case argPrompt a of
                    None \<Rightarrow> None
                  | Some q \<Rightarrow>
                      if sublist (SYSTEM_DIRECTIVE_PREFIX h) q then Some q
                      else Some (q @ readOnlyWarning h))\<rparr>))"
proof -
  have md: "plannerBefore h agent tool a = Inl OnlyMarkdownFiles"
    if "agent = Some PLANNER_AGENT" "tool \<in> set WRITE_EDIT_TOOLS" "argFilePath a = Some p"
      "\<not> endsWithMd p"
    using that by (simp add: plannerBefore_def)
  have dir: "plannerBefore h agent tool a = Inl OnlyInsideReservedDirectory"
    if "agent = Some PLANNER_AGENT" "tool \<in> set WRITE_EDIT_TOOLS" "argFilePath a = Some p"
      "endsWithMd p" "\<not> hasReservedDirectory (normalizedComponents p)"
  proof -
    from that(5) isAllowedFile_needs_component have "\<not> isAllowedFile (directory h) p" by blast
    with that show ?thesis by (simp add: plannerBefore_def)
  qed
  have ok: "plannerBefore h agent tool a = Inr a"
    if "agent = Some PLANNER_AGENT" "tool \<in> set WRITE_EDIT_TOOLS" "argFilePath a = Some p"
      "endsWithMd p" "isAllowedFile (directory h) p"
    using that by (simp add: plannerBefore_def)
  have trav: "plannerBefore h (Some PLANNER_AGENT) ''Write'' (writeCall ''.sisyphus/../secrets.md'')
     = Inl OnlyInsideReservedDirectory"
  proof -
    have "\<not> hasReservedDirectory (normalizedComponents ''.sisyphus/../secrets.md'')"
      by (simp add: normalized_traversal hasReservedDirectory_def RESERVED_DIRECTORY_def toLowerCase_literals)
    with isAllowedFile_needs_component
    have "\<not> isAllowedFile (directory h) ''.sisyphus/../secrets.md''" by blast
    then show ?thesis
      by (simp add: plannerBefore_def writeCall_def WRITE_EDIT_TOOLS_def endsWithMd_examples)
  qed
  have upper: "plannerBefore h (Some PLANNER_AGENT) ''Write'' (writeCall ''.SISYPHUS/plans/x.MD'')
       = Inr (writeCall ''.SISYPHUS/plans/x.MD'')"
    by (simp add: plannerBefore_def writeCall_def WRITE_EDIT_TOOLS_def endsWithMd_examples
        upper_case_plan_allowed)
  have agent: "plannerBefore h agent tool a = Inr a" if "agent \<noteq> Some PLANNER_AGENT"
    using that by (simp add: plannerBefore_def)
  have other: "plannerBefore h agent tool a = Inr a"
    if "tool \<notin> set WRITE_EDIT_TOOLS" "tool \<notin> set DELEGATE_TOOLS"
    using that by (simp add: plannerBefore_def)
  have deleg: "plannerBefore h agent tool a
        = Inr (a\<lparr>argPrompt :=
                 (case argPrompt a of
                    None \<Rightarrow> None
                  | Some q \<Rightarrow>
                      if sublist (SYSTEM_DIRECTIVE_PREFIX h) q then Some q
                      else Some (q @ readOnlyWarning h))\<rparr>)"
    if "agent = Some PLANNER_AGENT" "tool \<in> set DELEGATE_TOOLS"
  proof -
    from that(2) have "tool \<notin> set WRITE_EDIT_TOOLS"
      by (auto simp: DELEGATE_TOOLS_def WRITE_EDIT_TOOLS_def)
    with that show ?thesis by (simp add: plannerBefore_def annotatePrompt_def)
  qed
  from md dir ok trav upper agent other deleg show ?thesis by blast
qed

theorem planner_markdown_only_guard_witness:
  "plannerBefore plannerHookOfSuite (Some PLANNER_AGENT) ''Write'' (writeCall ''/tmp/proj/src/code.ts'')
     = Inl OnlyMarkdownFiles \<and>
   plannerBefore plannerHookOfSuite (Some PLANNER_AGENT) ''Edit'' (writeCall ''/tmp/proj/README.md'')
     = Inl OnlyInsideReservedDirectory \<and>
   plannerBefore plannerHookOfSuite (Some PLANNER_AGENT) ''Write'' (writeCall ''.SISYPHUS/plans/x.MD'')
     = Inr (writeCall ''.SISYPHUS/plans/x.MD'') \<and>
   plannerBefore plannerHookOfSuite (Some PLANNER_AGENT) ''Read'' (writeCall ''/tmp/proj/src/code.ts'')
     = Inr (writeCall ''/tmp/proj/src/code.ts'') \<and>
   plannerBefore plannerHookOfSuite (Some ''Sisyphus'') ''Write'' (writeCall ''/tmp/proj/src/code.ts'')
     = Inr (writeCall ''/tmp/proj/src/code.ts'') \<and>
   plannerBefore plannerHookOfSuite (Some PLANNER_AGENT) ''task'' (promptCall ''Research this library'')
     = Inr (promptCall ''Research this library[SYSTEM DIRECTIVE] DO NOT modify any files'')"
proof -
  let ?h = plannerHookOfSuite
  have w: "''Write'' \<in> set WRITE_EDIT_TOOLS" "''Edit'' \<in> set WRITE_EDIT_TOOLS"
    "''Read'' \<notin> set WRITE_EDIT_TOOLS" "''Read'' \<notin> set DELEGATE_TOOLS"
    "''task'' \<in> set DELEGATE_TOOLS" "Some ''Sisyphus'' \<noteq> Some PLANNER_AGENT"
    by (simp_all add: WRITE_EDIT_TOOLS_def DELEGATE_TOOLS_def PLANNER_AGENT_def)
  have n: "\<not> hasReservedDirectory (normalizedComponents ''/tmp/proj/README.md'')"
    by (simp add: normalizedComponents_def segments_def isSeparator_def resolveSegment_def
        hasReservedDirectory_def RESERVED_DIRECTORY_def toLowerCase_literals)
  from planner_markdown_only_guard[of "Some PLANNER_AGENT" "''Write''"
      "writeCall ''/tmp/proj/src/code.ts''" "''/tmp/proj/src/code.ts''" ?h] w
  have 1: "plannerBefore ?h (Some PLANNER_AGENT) ''Write'' (writeCall ''/tmp/proj/src/code.ts'')
      = Inl OnlyMarkdownFiles"
    by (simp add: writeCall_def endsWithMd_examples)
  from planner_markdown_only_guard[of "Some PLANNER_AGENT" "''Edit''"
      "writeCall ''/tmp/proj/README.md''" "''/tmp/proj/README.md''" ?h] w n
  have 2: "plannerBefore ?h (Some PLANNER_AGENT) ''Edit'' (writeCall ''/tmp/proj/README.md'')
      = Inl OnlyInsideReservedDirectory"
    by (simp add: writeCall_def endsWithMd_examples)
  from planner_markdown_only_guard[of "Some PLANNER_AGENT" "''Write''"
      "writeCall ''.SISYPHUS/plans/x.MD''" "''.SISYPHUS/plans/x.MD''" ?h]
  have 3: "plannerBefore ?h (Some PLANNER_AGENT) ''Write'' (writeCall ''.SISYPHUS/plans/x.MD'')
      = Inr (writeCall ''.SISYPHUS/plans/x.MD'')"
    by blast
  from planner_markdown_only_guard[of "Some PLANNER_AGENT" "''Read''"
      "writeCall ''/tmp/proj/src/code.ts''" "''/tmp/proj/src/code.ts''" ?h] w
  have 4: "plannerBefore ?h (Some PLANNER_AGENT) ''Read'' (writeCall ''/tmp/proj/src/code.ts'')
      = Inr (writeCall ''/tmp/proj/src/code.ts'')"
    by blast
  from planner_markdown_only_guard[of "Some ''Sisyphus''" "''Write''"
      "writeCall ''/tmp/proj/src/code.ts''" "''/tmp/proj/src/code.ts''" ?h] w
  have 5: "plannerBefore ?h (Some ''Sisyphus'') ''Write'' (writeCall ''/tmp/proj/src/code.ts'')
      = Inr (writeCall ''/tmp/proj/src/code.ts'')"
    by blast
  from planner_markdown_only_guard[of "Some PLANNER_AGENT" "''task''"
      "promptCall ''Research this library''" "[]" ?h] w
  have 6: "plannerBefore ?h (Some PLANNER_AGENT) ''task'' (promptCall ''Research this library'')
     = Inr (promptCall ''Research this library[SYSTEM DIRECTIVE] DO NOT modify any files'')"
    by (simp add: promptCall_def plannerHookOfSuite_def sublist_code(3))
  from 1 2 3 4 5 6 show ?thesis by simp
qed

section \<open>Theorems: todo-continuation enforcer\<close>

subsection \<open>One countdown, step by step\<close>

lemma getOrCreateState_props:
  "sessions (snd (getOrCreateState sid st)) sid = Some (fst (getOrCreateState sid st))"
  "emitted (snd (getOrCreateState sid st)) = emitted st"
  "suspended (snd (getOrCreateState sid st)) = suspended st"
  "intervals (snd (getOrCreateState sid st)) = intervals st"
  "sessions st sid = None \<Longrightarrow>
     heap (snd (getOrCreateState sid st)) (fst (getOrCreateState sid st)) = newSessionState"
  "sessions st sid = Some a \<Longrightarrow> getOrCreateState sid st = (a, st)"
  by (simp_all add: getOrCreateState_def split: option.splits)

lemma run_snoc: "run (steps @ [es]) st = step es (run steps st)"
  by (simp add: run_def)

lemma remaining_in_text:
  "sublist (showNat (getIncompleteCount todos) @ '' remaining'') (continuationText todos)"
proof -
  have "continuationText todos =
      (CONTINUATION_PROMPT @ ''\<newline>\<newline>[Status: ''
        @ showNat (length todos - getIncompleteCount todos) @ ''/'' @ showNat (length todos)
        @ '' completed, '') @ (showNat (getIncompleteCount todos) @ '' remaining'') @ '']''"
    by (simp add: continuationText_def)
  then show ?thesis
    by (metis sublist_appendI)
qed

lemmas enforcer_defs =
  run_def step_def handler_def idleReceived_def falsy_def getOrCreateState_def
  resume_def idleAfterTodos_def startCountdown_def invalidate_def
  updateObject_def invalidated_def clearTimer_def Let_def objectBefore_def
  timerFires_def executeInjection_def throttled_def injectionAfterTodos_def
  injectionAfterPrompt_def modeOf_def timerOf_def versionOf_def
  markRecovering_def markRecoveryComplete_def isMainSession_def
  createTodoContinuationEnforcer_def newSessionState_def

lemma threeTodos_counts: "getIncompleteCount threeTodos = 2" "length threeTodos = 3" "threeTodos \<noteq> []"
  by (simp_all add: getIncompleteCount_def threeTodos_def)

lemma showNat_2: "showNat 2 = ''2''"
  by (simp add: showNat.simps digitChar_def)

text \<open>
  C1, as stated, at a session whose last message comes from the agent \<open>Plan\<close>: the session
  is the main session, has the three todos (two pending, one completed) and no running
  background task; \<open>session.idle\<close> starts the countdown, the countdown elapses with no
  event in between, and \<open>executeInjection\<close> returns at its plan-mode gate. One toast has
  been shown, no prompt has been sent, and nothing is left pending.
\<close>

theorem plan_agent_gets_no_continuation:
  "emitted (run [(quietSurroundings, Deliver (SessionIdle (Some ''ses_main''))),
                 (quietSurroundings, TodosForIdle ''ses_main''),
                 (planAgentSurroundings, TimerFires 0),
                 (planAgentSurroundings, TodosForInjection ''ses_main'' 0 2)]
            createTodoContinuationEnforcer)
     = [CountdownToast 2 2] \<and>
   suspended (run [(quietSurroundings, Deliver (SessionIdle (Some ''ses_main''))),
                 (quietSurroundings, TodosForIdle ''ses_main''),
                 (planAgentSurroundings, TimerFires 0),
                 (planAgentSurroundings, TodosForInjection ''ses_main'' 0 2)]
            createTodoContinuationEnforcer) = [] \<and>
   timerOf (run [(quietSurroundings, Deliver (SessionIdle (Some ''ses_main''))),
                 (quietSurroundings, TodosForIdle ''ses_main''),
                 (planAgentSurroundings, TimerFires 0),
                 (planAgentSurroundings, TodosForInjection ''ses_main'' 0 2)]
            createTodoContinuationEnforcer) ''ses_main'' = None \<and>
   modeOf (run [(quietSurroundings, Deliver (SessionIdle (Some ''ses_main''))),
                 (quietSurroundings, TodosForIdle ''ses_main''),
                 (planAgentSurroundings, TimerFires 0),
                 (planAgentSurroundings, TodosForInjection ''ses_main'' 0 2)]
            createTodoContinuationEnforcer) ''ses_main'' = Some Idle"
  by (simp add: enforcer_defs quietSurroundings_def planAgentSurroundings_def threeTodos_counts
      COUNTDOWN_SECONDS_def agentHasWritePermission_def isPlanModeAgent_def agentOf_def
      toLowerCase_def toLowerChar_def)

subsection \<open>Versions and captured versions\<close>

lemma consistentD:
  assumes "consistent st"
  shows "captured st a cv \<Longrightarrow> a < nextAddr st"
    and "captured st a cv \<Longrightarrow> cv \<le> version (heap st a)"
    and "captured st a cv \<Longrightarrow> mode (heap st a) = Recovering \<Longrightarrow> cv < version (heap st a)"
    and "timer (heap st a) = Some (s, cv) \<Longrightarrow> cv = version (heap st a)"
    and "sessions st sid = Some a \<Longrightarrow> a < nextAddr st"
    and "sessions st s1 = Some a \<Longrightarrow> sessions st s2 = Some a \<Longrightarrow> s1 = s2"
  using assms unfolding consistent_def by blast+

lemma capturedI:
  "timer (heap st a) = Some (s, cv) \<Longrightarrow> captured st a cv"
  "InjectionAwaitsTodos s a cv \<in> set (suspended st) \<Longrightarrow> captured st a cv"
  "(a, cv, r, c) \<in> set (intervals st) \<Longrightarrow> captured st a cv"
  unfolding captured_def by blast+

lemma consistent_step_object:
  assumes c: "consistent st"
    and n: "nextAddr st' = nextAddr st"
    and ses: "\<And>sid a. sessions st' sid = Some a \<Longrightarrow> sessions st sid = Some a"
    and h: "\<And>a. a \<noteq> a0 \<Longrightarrow> heap st' a = heap st a"
    and v: "version (heap st a0) \<le> version (heap st' a0)"
    and t: "\<And>s cv. timer (heap st' a0) = Some (s, cv) \<Longrightarrow>
              cv = version (heap st' a0) \<and> a0 < nextAddr st \<and> mode (heap st' a0) \<noteq> Recovering"
    and l: "\<And>a cv. (\<exists>s. InjectionAwaitsTodos s a cv \<in> set (suspended st')) \<or>
                     (\<exists>r c. (a, cv, r, c) \<in> set (intervals st')) \<Longrightarrow>
              captured st a cv \<or> (a = a0 \<and> cv = version (heap st' a0) \<and> a0 < nextAddr st)"
    and r: "\<And>cv. mode (heap st' a0) = Recovering \<Longrightarrow>
              (\<exists>s. InjectionAwaitsTodos s a0 cv \<in> set (suspended st')) \<or>
              (\<exists>r c. (a0, cv, r, c) \<in> set (intervals st')) \<Longrightarrow> cv < version (heap st' a0)"
  shows "consistent st'"
  unfolding consistent_def
proof (intro conjI allI impI)
  fix a cv assume cap: "captured st' a cv"
  show "a < nextAddr st'"
  proof (cases "a = a0")
    case True
    with cap t l[of a0 cv] consistentD(1)[OF c] n show ?thesis
      unfolding captured_def by metis
  next
    case False
    with cap h[OF False] l[of a cv] consistentD(1)[OF c, of a cv] n show ?thesis
      unfolding captured_def by metis
  qed
  show "cv \<le> version (heap st' a)"
  proof (cases "a = a0")
    case True
    from cap consider s where "timer (heap st' a0) = Some (s, cv)"
      | "(\<exists>s. InjectionAwaitsTodos s a0 cv \<in> set (suspended st')) \<or>
         (\<exists>r c. (a0, cv, r, c) \<in> set (intervals st'))"
      unfolding captured_def True by blast
    then show ?thesis
    proof cases
      case 1
      with t show ?thesis unfolding True by simp
    next
      case 2
      from l[OF 2] consistentD(2)[OF c, of a0 cv] v show ?thesis unfolding True by auto
    qed
  next
    case False
    with cap h[OF False] l[of a cv] have "captured st a cv"
      unfolding captured_def by metis
    with consistentD(2)[OF c] h[OF False] show ?thesis by simp
  qed
  show "cv < version (heap st' a)" if rec: "mode (heap st' a) = Recovering"
  proof (cases "a = a0")
    case True
    from cap consider s where "timer (heap st' a0) = Some (s, cv)"
      | "(\<exists>s. InjectionAwaitsTodos s a0 cv \<in> set (suspended st')) \<or>
         (\<exists>r c. (a0, cv, r, c) \<in> set (intervals st'))"
      unfolding captured_def True by blast
    then show ?thesis
    proof cases
      case 1
      with t rec show ?thesis unfolding True by simp
    next
      case 2
      from r[OF rec[unfolded True] 2] show ?thesis unfolding True .
    qed
  next
    case False
    with cap h[OF False] l[of a cv] have "captured st a cv"
      unfolding captured_def by metis
    with consistentD(3)[OF c, of a cv] rec h[OF False] show ?thesis by simp
  qed
next
  fix a s cv assume tm: "timer (heap st' a) = Some (s, cv)"
  show "cv = version (heap st' a)"
  proof (cases "a = a0")
    case True
    with tm t show ?thesis by simp
  next
    case False
    with tm h[OF False] consistentD(4)[OF c, of a s cv] show ?thesis by simp
  qed
next
  fix sid a assume "sessions st' sid = Some a"
  from consistentD(5)[OF c ses[OF this]] n show "a < nextAddr st'" by simp
next
  fix s1 s2 a assume "sessions st' s1 = Some a" "sessions st' s2 = Some a"
  from consistentD(6)[OF c ses[OF this(1)] ses[OF this(2)]] show "s1 = s2" .
qed

lemma consistent_invalidate: "consistent st \<Longrightarrow> consistent (invalidate sid st)"
proof (cases "sessions st sid")
  case None
  assume "consistent st"
  with None show ?thesis by (simp add: invalidate_def)
next
  case (Some a)
  assume c: "consistent st"
  show ?thesis
  proof (cases "mode (heap st a) = Recovering")
    case True
    with Some c show ?thesis by (simp add: invalidate_def)
  next
    case False
    with Some have e: "invalidate sid st = updateObject a invalidated st"
      by (simp add: invalidate_def)
    show ?thesis unfolding e
      by (rule consistent_step_object[OF c, where ?a0.0 = a])
        (auto simp: updateObject_def invalidated_def clearTimer_def Let_def intro: capturedI)
  qed
qed

lemma timer_facts:
  assumes "consistent st" "timer (heap st a) = Some (s, cv)"
  shows "cv = version (heap st a) \<and> a < nextAddr st \<and> mode (heap st a) \<noteq> Recovering"
proof -
  from assms(2) have cap: "captured st a cv" by (rule capturedI)
  from consistentD(4)[OF assms] consistentD(1)[OF assms(1) cap] consistentD(3)[OF assms(1) cap]
  show ?thesis by auto
qed

lemma consistent_getOrCreate:
  assumes c: "consistent st"
  shows "consistent (snd (getOrCreateState sid st))"
proof (cases "sessions st sid")
  case (Some a)
  with c show ?thesis by (simp add: getOrCreateState_def)
next
  case None
  let ?n = "nextAddr st"
  let ?st' = "st\<lparr>sessions := (sessions st)(sid \<mapsto> ?n), heap := (heap st)(?n := newSessionState),
                   nextAddr := ?n + 1\<rparr>"
  have e: "snd (getOrCreateState sid st) = ?st'"
    using None by (simp add: getOrCreateState_def)
  have nocap: "\<not> captured st ?n cv" for cv
    using consistentD(1)[OF c, of ?n cv] by auto
  have cap: "captured st a cv \<and> a \<noteq> ?n" if "captured ?st' a cv" for a cv
  proof (cases "a = ?n")
    case True
    with that nocap[of cv] show ?thesis
      by (auto simp: captured_def newSessionState_def)
  next
    case False
    with that show ?thesis by (auto simp: captured_def)
  qed
  show ?thesis unfolding e consistent_def
  proof (intro conjI allI impI)
    fix a cv assume "captured ?st' a cv"
    from cap[OF this] have k: "captured st a cv" "a \<noteq> ?n" by simp_all
    from consistentD(1)[OF c k(1)] show "a < nextAddr ?st'" by simp
    from consistentD(2)[OF c k(1)] k(2) show "cv \<le> version (heap ?st' a)" by simp
    show "cv < version (heap ?st' a)" if "mode (heap ?st' a) = Recovering"
      using consistentD(3)[OF c k(1)] k(2) that by simp
  next
    fix a s cv assume t: "timer (heap ?st' a) = Some (s, cv)"
    then have "a \<noteq> ?n" by (auto simp: newSessionState_def)
    with t consistentD(4)[OF c, of a s cv] show "cv = version (heap ?st' a)" by simp
  next
    fix sid' a assume "sessions ?st' sid' = Some a"
    with consistentD(5)[OF c, of sid' a] show "a < nextAddr ?st'"
      by (auto split: if_splits)
  next
    fix s1 s2 a assume "sessions ?st' s1 = Some a" "sessions ?st' s2 = Some a"
    with consistentD(5)[OF c, of s1 a] consistentD(5)[OF c, of s2 a]
      consistentD(6)[OF c, of s1 a s2]
    show "s1 = s2"
      by (auto split: if_splits)
  qed
qed

lemma after_invalidate:
  assumes c: "consistent st" and s: "sessions st sid = Some a"
  shows "timer (heap (invalidate sid st) a) = None \<and>
         (\<forall>cv. captured st a cv \<longrightarrow> cv < version (heap (invalidate sid st) a))"
proof (cases "mode (heap st a) = Recovering")
  case True
  with s have e: "invalidate sid st = st" by (simp add: invalidate_def)
  from True timer_facts[OF c, of a] have "timer (heap st a) = None"
    by (cases "timer (heap st a)") auto
  with consistentD(3)[OF c _ True] show ?thesis unfolding e by simp
next
  case False
  with s have e: "invalidate sid st = updateObject a invalidated st"
    by (simp add: invalidate_def)
  have "version (heap (updateObject a invalidated st) a) = version (heap st a) + 1"
    "timer (heap (updateObject a invalidated st) a) = None"
    by (simp_all add: updateObject_def invalidated_def clearTimer_def Let_def)
  with consistentD(2)[OF c, of a] show ?thesis unfolding e by fastforce
qed

lemma invalidate_frame:
  "nextAddr (invalidate sid st) = nextAddr st" "sessions (invalidate sid st) = sessions st"
  "suspended (invalidate sid st) = suspended st" "intervals (invalidate sid st) = intervals st"
  "emitted (invalidate sid st) = emitted st"
  "sessions st sid = Some a \<Longrightarrow> b \<noteq> a \<Longrightarrow> heap (invalidate sid st) b = heap st b"
  by (simp_all add: invalidate_def updateObject_def split: option.splits)

lemma consistent_markRecovering:
  assumes c: "consistent st"
  shows "consistent (markRecovering sid st)"
proof -
  define a where "a = fst (getOrCreateState sid st)"
  define st1 where "st1 = snd (getOrCreateState sid st)"
  define st2 where "st2 = invalidate sid st1"
  have c1: "consistent st1" unfolding st1_def by (rule consistent_getOrCreate[OF c])
  have s1: "sessions st1 sid = Some a" unfolding st1_def a_def by (rule getOrCreateState_props(1))
  have c2: "consistent st2" unfolding st2_def by (rule consistent_invalidate[OF c1])
  from after_invalidate[OF c1 s1]
  have t2: "timer (heap st2 a) = None"
    and v2: "\<And>cv. captured st1 a cv \<Longrightarrow> cv < version (heap st2 a)"
    unfolding st2_def by auto
  have l2: "suspended st2 = suspended st1" "intervals st2 = intervals st1"
    unfolding st2_def by (simp_all add: invalidate_frame)
  have e: "markRecovering sid st = updateObject a (\<lambda>s. s\<lparr>mode := Recovering\<rparr>) st2"
    by (simp add: markRecovering_def a_def st1_def st2_def split: prod.splits)
  show ?thesis unfolding e
  proof (rule consistent_step_object[OF c2, where ?a0.0 = a])
    fix cv
    assume "(\<exists>s. InjectionAwaitsTodos s a cv \<in> set (suspended (updateObject a (\<lambda>s. s\<lparr>mode := Recovering\<rparr>) st2))) \<or>
            (\<exists>r c. (a, cv, r, c) \<in> set (intervals (updateObject a (\<lambda>s. s\<lparr>mode := Recovering\<rparr>) st2)))"
    then have "captured st1 a cv"
      by (auto simp: updateObject_def l2 intro: capturedI)
    from v2[OF this] show "cv < version (heap (updateObject a (\<lambda>s. s\<lparr>mode := Recovering\<rparr>) st2) a)"
      by (simp add: updateObject_def)
  qed (auto simp: updateObject_def t2 intro: capturedI)
qed

lemma consistent_set_mode:
  assumes c: "consistent st" and m: "m \<noteq> Recovering"
  shows "consistent (updateObject a (\<lambda>s. s\<lparr>mode := m\<rparr>) st)"
  by (rule consistent_step_object[OF c, where ?a0.0 = a])
    (use m timer_facts[OF c, of a] in \<open>auto simp: updateObject_def intro: capturedI\<close>)

lemma consistent_clearTimer:
  assumes c: "consistent st"
  shows "consistent (updateObject a clearTimer st)"
  by (rule consistent_step_object[OF c, where ?a0.0 = a])
    (use consistentD(3)[OF c, of a] in \<open>auto simp: updateObject_def clearTimer_def intro: capturedI\<close>)

lemma consistent_lastAttempted:
  assumes c: "consistent st"
  shows "consistent (updateObject a (\<lambda>s. s\<lparr>lastAttemptedAt := x\<rparr>) st)"
  by (rule consistent_step_object[OF c, where ?a0.0 = a])
    (use consistentD(3)[OF c, of a] timer_facts[OF c, of a] in
      \<open>auto simp: updateObject_def intro: capturedI\<close>)

lemma consistent_lists:
  assumes c: "consistent st"
    and "nextAddr st' = nextAddr st" "heap st' = heap st"
    and "\<And>sid a. sessions st' sid = Some a \<Longrightarrow> sessions st sid = Some a"
    and "\<And>a cv. (\<exists>s. InjectionAwaitsTodos s a cv \<in> set (suspended st')) \<or>
                  (\<exists>r c. (a, cv, r, c) \<in> set (intervals st')) \<Longrightarrow> captured st a cv"
  shows "consistent st'"
  unfolding consistent_def
proof (intro conjI allI impI)
  fix a cv assume "captured st' a cv"
  with assms(3) assms(5)[of a cv] have k: "captured st a cv"
    unfolding captured_def by metis
  from consistentD(1)[OF c k] assms(2) show "a < nextAddr st'" by simp
  from consistentD(2)[OF c k] assms(3) show "cv \<le> version (heap st' a)" by simp
  show "cv < version (heap st' a)" if "mode (heap st' a) = Recovering"
    using consistentD(3)[OF c k] assms(3) that by simp
next
  fix a s cv assume "timer (heap st' a) = Some (s, cv)"
  with consistentD(4)[OF c, of a s cv] assms(3) show "cv = version (heap st' a)" by simp
next
  fix sid a assume "sessions st' sid = Some a"
  from consistentD(5)[OF c assms(4)[OF this]] assms(2) show "a < nextAddr st'" by simp
next
  fix s1 s2 a assume "sessions st' s1 = Some a" "sessions st' s2 = Some a"
  from consistentD(6)[OF c assms(4)[OF this(1)] assms(4)[OF this(2)]] show "s1 = s2" .
qed

lemma consistent_remove_suspended:
  assumes c: "consistent st"
  shows "consistent (st\<lparr>suspended := remove1 k (suspended st)\<rparr>)"
  by (rule consistent_lists[OF c])
    (use set_remove1_subset[of k "suspended st"] in \<open>auto intro: capturedI\<close>)

lemma consistent_add_suspended:
  assumes c: "consistent st" and k: "\<forall>s a cv. k \<noteq> InjectionAwaitsTodos s a cv"
  shows "consistent (st\<lparr>suspended := suspended st @ [k]\<rparr>)"
  by (rule consistent_lists[OF c]) (use k in \<open>auto intro: capturedI\<close>)

lemma consistent_emitted:
  assumes c: "consistent st"
  shows "consistent (st\<lparr>emitted := es\<rparr>)"
  by (rule consistent_lists[OF c]) (auto intro: capturedI)

lemma consistent_markRecoveryComplete:
  "consistent st \<Longrightarrow> consistent (markRecoveryComplete sid st)"
  by (simp add: markRecoveryComplete_def consistent_set_mode split: option.splits)

lemma consistent_executeInjection:
  assumes c: "consistent st"
  shows "consistent (executeInjection env sid cv st)"
proof (cases "sessions st sid")
  case None
  with c show ?thesis by (simp add: executeInjection_def)
next
  case (Some a)
  let ?st' = "(updateObject a (\<lambda>s. s\<lparr>mode := Injecting\<rparr>) st)
                \<lparr>suspended := suspended st @ [InjectionAwaitsTodos sid a (version (heap st a))]\<rparr>"
  have "consistent ?st'"
    by (rule consistent_step_object[OF c, where ?a0.0 = a])
      (use timer_facts[OF c, of a] consistentD(5)[OF c Some] in
        \<open>auto simp: updateObject_def intro: capturedI\<close>)
  with c Some show ?thesis
    by (auto simp: executeInjection_def consistent_set_mode)
qed

lemma consistent_injectionAfterTodos:
  assumes c: "consistent st"
  shows "consistent (injectionAfterTodos env sid a cv st)"
proof -
  have i: "consistent (updateObject a (\<lambda>s. s\<lparr>mode := Idle\<rparr>) st)"
    by (rule consistent_set_mode[OF c]) simp
  have "consistent ((updateObject a (\<lambda>s. s\<lparr>lastAttemptedAt := x\<rparr>) st)
          \<lparr>emitted := es, suspended := suspended st @ [InjectionAwaitsPrompt a]\<rparr>)" for x es
    by (rule consistent_lists[OF consistent_lastAttempted[OF c, of a x]])
      (auto simp: updateObject_def intro: capturedI)
  with i show ?thesis
    by (simp add: injectionAfterTodos_def Let_def split: option.splits)
qed

lemma consistent_injectionAfterPrompt:
  "consistent st \<Longrightarrow> consistent (injectionAfterPrompt a st)"
  by (simp add: injectionAfterPrompt_def consistent_set_mode)

lemma consistent_resume:
  assumes "consistent st" "\<And>s. consistent s \<Longrightarrow> consistent (f s)"
  shows "consistent (resume k f st)"
  using assms by (simp add: resume_def consistent_remove_suspended)

lemma consistent_startCountdown:
  assumes c: "consistent st"
  shows "consistent (startCountdown sid n st)"
proof -
  define a where "a = fst (getOrCreateState sid st)"
  define st1 where "st1 = snd (getOrCreateState sid st)"
  define st2 where "st2 = invalidate sid st1"
  define cv where "cv = version (heap st2 a) + 1"
  have c1: "consistent st1" unfolding st1_def by (rule consistent_getOrCreate[OF c])
  have s1: "sessions st1 sid = Some a" unfolding st1_def a_def by (rule getOrCreateState_props(1))
  have c2: "consistent st2" unfolding st2_def by (rule consistent_invalidate[OF c1])
  have s2: "sessions st2 sid = Some a" unfolding st2_def by (simp add: invalidate_frame s1)
  have a2: "a < nextAddr st2" by (rule consistentD(5)[OF c2 s2])
  let ?st' = "updateObject a (\<lambda>s. s\<lparr>timer := Some (sid, cv)\<rparr>)
     ((updateObject a (\<lambda>s. s\<lparr>version := version s + 1, mode := CountingDown\<rparr>) st2)
        \<lparr>emitted := emitted st2 @ [CountdownToast COUNTDOWN_SECONDS n],
          intervals := intervals st2 @ [(a, cv, COUNTDOWN_SECONDS, n)]\<rparr>)"
  have e: "startCountdown sid n st = ?st'"
    by (simp add: startCountdown_def a_def st1_def st2_def cv_def updateObject_def Let_def
        split: prod.splits)
  show ?thesis unfolding e
    by (rule consistent_step_object[OF c2, where ?a0.0 = a])
      (use a2 in \<open>auto simp: updateObject_def cv_def intro: capturedI\<close>)
qed

lemma consistent_timerFires:
  assumes c: "consistent st"
  shows "consistent (timerFires env a st)"
proof (cases "timer (heap st a)")
  case None
  with c show ?thesis by (simp add: timerFires_def)
next
  case (Some p)
  have "consistent (st\<lparr>intervals := filter P (intervals st)\<rparr>)" for P
    by (rule consistent_lists[OF c]) (auto intro: capturedI)
  from consistent_executeInjection[OF consistent_clearTimer[OF this]] Some
  show ?thesis by (simp add: timerFires_def split: prod.splits)
qed

lemma consistent_toastTick:
  assumes c: "consistent st"
  shows "consistent (toastTick iv st)"
proof -
  obtain a cv r n where iv: "iv = (a, cv, r, n)" by (cases iv) auto
  have 1: "consistent (st\<lparr>intervals := remove1 iv (intervals st)\<rparr>)"
    by (rule consistent_lists[OF c])
      (use set_remove1_subset[of iv "intervals st"] in \<open>auto intro: capturedI\<close>)
  have 2: "consistent (st\<lparr>intervals := (a, cv, r', n) # remove1 iv (intervals st), emitted := es\<rparr>)"
    if "iv \<in> set (intervals st)" for r' es
    by (rule consistent_lists[OF c])
      (use that iv set_remove1_subset[of iv "intervals st"] in \<open>auto intro: capturedI\<close>)
  from c 1 2 show ?thesis
    by (simp add: toastTick_def iv)
qed

lemma consistent_idleReceived:
  assumes c: "consistent st"
  shows "consistent (idleReceived env sid st)"
proof -
  define st1 where "st1 = snd (getOrCreateState (the sid) st)"
  have c1: "consistent st1" unfolding st1_def by (rule consistent_getOrCreate[OF c])
  have "consistent (st1\<lparr>suspended := suspended st1 @ [IdleAwaitsTodos (the sid)]\<rparr>)"
    by (rule consistent_add_suspended[OF c1]) simp
  with c c1 show ?thesis
    by (simp add: idleReceived_def st1_def case_prod_beta)
qed

lemma consistent_idleAfterTodos:
  "consistent st \<Longrightarrow> consistent (idleAfterTodos env sid st)"
  by (simp add: idleAfterTodos_def consistent_startCountdown split: option.splits)

lemma consistent_forget_session:
  assumes c: "consistent st"
  shows "consistent (st\<lparr>sessions := (sessions st)(sid := None)\<rparr>)"
  by (rule consistent_lists[OF c]) (auto intro: capturedI split: if_splits)

lemma consistent_handler:
  assumes c: "consistent st"
  shows "consistent (handler env ev st)"
proof (cases ev)
  case (SessionError sid)
  define st1 where "st1 = snd (getOrCreateState (the sid) st)"
  have "consistent (updateObject a (\<lambda>s. s\<lparr>mode := ErrorBypass\<rparr>) (invalidate (the sid) st1))" for a
    unfolding st1_def
    by (rule consistent_set_mode[OF consistent_invalidate[OF consistent_getOrCreate[OF c]]]) simp
  with c show ?thesis
    by (simp add: handler_def SessionError st1_def case_prod_beta)
next
  case (SessionIdle sid)
  with c show ?thesis by (simp add: handler_def consistent_idleReceived)
next
  case (MessageUpdated sid msgRole finish)
  have "consistent (updateObject a (\<lambda>s. s\<lparr>mode := Idle\<rparr>) st)" for a
    by (rule consistent_set_mode[OF c]) simp
  with c show ?thesis
    by (simp add: handler_def MessageUpdated consistent_invalidate split: option.splits)
next
  case (MessagePartUpdated sid msgRole)
  with c show ?thesis by (simp add: handler_def consistent_invalidate)
next
  case (ToolExecuteBefore sid)
  with c show ?thesis by (simp add: handler_def consistent_invalidate)
next
  case (ToolExecuteAfter sid)
  with c show ?thesis by (simp add: handler_def consistent_invalidate)
next
  case (SessionDeleted sid)
  have "consistent ((updateObject a clearTimer st)\<lparr>sessions := (sessions st)(the sid := None)\<rparr>)" for a
    using consistent_forget_session[OF consistent_clearTimer[OF c, of a], of "the sid"]
    by (simp add: updateObject_def)
  with c consistent_forget_session[OF c, of "the sid"] show ?thesis
    by (simp add: handler_def SessionDeleted split: option.splits)
next
  case OtherEvent
  with c show ?thesis by (simp add: handler_def)
qed

lemma consistent_step:
  assumes c: "consistent st"
  shows "consistent (step es st)"
proof -
  obtain env s where es: "es = (env, s)" by (cases es) auto
  show ?thesis
    unfolding es step_def
    by (cases s)
      (simp_all add: c consistent_handler consistent_resume consistent_idleAfterTodos
        consistent_timerFires consistent_toastTick consistent_injectionAfterTodos
        consistent_injectionAfterPrompt consistent_markRecovering consistent_markRecoveryComplete)
qed

lemma consistent_run: "consistent st \<Longrightarrow> consistent (run steps st)"
  by (induction steps rule: rev_induct) (simp_all add: run_snoc run_def consistent_step)

lemma consistent_initially: "consistent createTodoContinuationEnforcer"
  by (simp add: consistent_def captured_def createTodoContinuationEnforcer_def newSessionState_def)

lemma grows_refl: "grows st st"
  by (simp add: grows_def)

lemma grows_trans: "grows st st' \<Longrightarrow> grows st' st'' \<Longrightarrow> grows st st''"
  unfolding grows_def by (meson le_trans less_le_trans)

lemma grows_lists: "nextAddr st' = nextAddr st \<Longrightarrow> heap st' = heap st \<Longrightarrow> grows st st'"
  by (simp add: grows_def)

lemma grows_updateObject:
  "version (heap st a) \<le> version (f (heap st a)) \<Longrightarrow> grows st (updateObject a f st)"
  by (simp add: grows_def updateObject_def)

lemma grows_getOrCreate: "grows st (snd (getOrCreateState sid st))"
  by (simp add: grows_def getOrCreateState_def split: option.splits)

lemma grows_invalidate: "grows st (invalidate sid st)"
  by (simp add: invalidate_def grows_refl grows_updateObject invalidated_def clearTimer_def Let_def
      split: option.splits)

lemma grows_markRecovering: "grows st (markRecovering sid st)"
proof -
  have "grows (invalidate sid (snd (getOrCreateState sid st))) (markRecovering sid st)"
    by (simp add: markRecovering_def grows_def updateObject_def Let_def case_prod_beta)
  from grows_trans[OF grows_trans[OF grows_getOrCreate grows_invalidate] this] show ?thesis .
qed

lemma grows_markRecoveryComplete: "grows st (markRecoveryComplete sid st)"
  by (simp add: markRecoveryComplete_def grows_refl grows_updateObject split: option.splits)

lemma grows_executeInjection: "grows st (executeInjection env sid cv st)"
  by (simp add: executeInjection_def grows_def updateObject_def split: option.splits)

lemma grows_injectionAfterTodos: "grows st (injectionAfterTodos env sid a cv st)"
  by (simp add: injectionAfterTodos_def grows_def updateObject_def Let_def split: option.splits)

lemma grows_injectionAfterPrompt: "grows st (injectionAfterPrompt a st)"
  by (simp add: injectionAfterPrompt_def grows_updateObject)

lemma grows_startCountdown: "grows st (startCountdown sid n st)"
proof -
  have "grows (invalidate sid (snd (getOrCreateState sid st))) (startCountdown sid n st)"
    by (simp add: startCountdown_def grows_def updateObject_def Let_def case_prod_beta)
  from grows_trans[OF grows_trans[OF grows_getOrCreate grows_invalidate] this] show ?thesis .
qed

lemma grows_resume:
  assumes "\<And>s. grows s (f s)"
  shows "grows st (resume k f st)"
proof (cases "k \<in> set (suspended st)")
  case True
  have "grows st (st\<lparr>suspended := remove1 k (suspended st)\<rparr>)" by (simp add: grows_def)
  from grows_trans[OF this assms] True show ?thesis by (simp add: resume_def)
next
  case False
  then show ?thesis by (simp add: resume_def grows_refl)
qed

lemma grows_timerFires: "grows st (timerFires env a st)"
proof (cases "timer (heap st a)")
  case None
  then show ?thesis by (simp add: timerFires_def grows_refl)
next
  case (Some p)
  have "grows st (updateObject a clearTimer (st\<lparr>intervals := xs\<rparr>))" for xs
    by (simp add: grows_def updateObject_def clearTimer_def)
  from grows_trans[OF this grows_executeInjection] Some show ?thesis
    by (simp add: timerFires_def split: prod.splits)
qed

lemma grows_toastTick: "grows st (toastTick iv st)"
  by (cases iv) (simp add: toastTick_def grows_def)

lemma grows_idleReceived: "grows st (idleReceived env sid st)"
proof -
  have "grows (snd (getOrCreateState (the sid) st)) (idleReceived env sid st)" if "\<not> falsy sid" "isMainSession env (the sid)"
    using that by (simp add: idleReceived_def grows_def Let_def case_prod_beta)
  from grows_trans[OF grows_getOrCreate this] show ?thesis
    by (cases "\<not> falsy sid \<and> isMainSession env (the sid)") (auto simp: idleReceived_def grows_refl)
qed

lemma grows_idleAfterTodos: "grows st (idleAfterTodos env sid st)"
  by (simp add: idleAfterTodos_def grows_refl grows_startCountdown split: option.splits)

lemma grows_handler: "grows st (handler env ev st)"
proof (cases ev)
  case (SessionError sid)
  have "grows (invalidate (the sid) (snd (getOrCreateState (the sid) st))) (handler env ev st)"
    if "\<not> falsy sid"
    using that by (simp add: handler_def SessionError grows_def updateObject_def Let_def case_prod_beta)
  from grows_trans[OF grows_trans[OF grows_getOrCreate grows_invalidate] this] show ?thesis
    by (cases "falsy sid") (auto simp: handler_def SessionError grows_refl)
next
  case (SessionIdle sid)
  then show ?thesis by (simp add: handler_def grows_idleReceived)
next
  case (MessageUpdated sid msgRole finish)
  have "grows st (updateObject a (\<lambda>s. s\<lparr>mode := Idle\<rparr>) st)" for a
    by (simp add: grows_updateObject)
  from grows_trans[OF this grows_invalidate] show ?thesis
    by (simp add: handler_def MessageUpdated grows_refl grows_invalidate split: option.splits)
next
  case (MessagePartUpdated sid msgRole)
  then show ?thesis by (simp add: handler_def grows_refl grows_invalidate)
next
  case (ToolExecuteBefore sid)
  then show ?thesis by (simp add: handler_def grows_refl grows_invalidate)
next
  case (ToolExecuteAfter sid)
  then show ?thesis by (simp add: handler_def grows_refl grows_invalidate)
next
  case (SessionDeleted sid)
  then show ?thesis
    by (simp add: handler_def grows_def updateObject_def clearTimer_def split: option.splits)
next
  case OtherEvent
  then show ?thesis by (simp add: handler_def grows_refl)
qed

lemma grows_step: "grows st (step es st)"
proof -
  obtain env s where es: "es = (env, s)" by (cases es) auto
  show ?thesis
    unfolding es step_def
    by (cases s)
      (simp_all add: grows_handler grows_resume grows_idleAfterTodos grows_timerFires
        grows_toastTick grows_injectionAfterTodos grows_injectionAfterPrompt
        grows_markRecovering grows_markRecoveryComplete)
qed

lemma grows_run: "grows st (run steps st)"
proof (induction steps rule: rev_induct)
  case Nil
  show ?case by (simp add: run_def grows_refl)
next
  case (snoc es steps)
  from grows_trans[OF snoc grows_step] show ?case by (simp add: run_snoc)
qed

lemma countdownPending_object:
  "sessions countdownPending ''ses_main'' = Some 0"
  "heap countdownPending 0
     = \<lparr>version = 2, mode = CountingDown, timer = Some (''ses_main'', 2), lastAttemptedAt = None\<rparr>"
  "suspended countdownPending = []" "emitted countdownPending = [CountdownToast 2 2]"
  "nextAddr countdownPending = 1"
  by (simp_all add: countdownPending_def enforcer_defs quietSurroundings_def threeTodos_counts
      COUNTDOWN_SECONDS_def)

text \<open>
  C2, as stated, at the main session after the recovery hook has marked it as recovering:
  the session's stored version is 1, and a call to \<open>invalidate\<close> leaves it at 1.
\<close>

theorem invalidate_while_recovering_keeps_version:
  "modeOf stateWhileRecovering ''ses_main'' = Some Recovering \<and>
   versionOf stateWhileRecovering ''ses_main'' = Some 1 \<and>
   versionOf (invalidate ''ses_main'' stateWhileRecovering) ''ses_main'' = Some 1"
  by (simp add: stateWhileRecovering_def enforcer_defs)

text \<open>
  C2, amended. In every state the enforcer can reach, for a session with a state object:
  a call to \<open>invalidate\<close> increases the stored version by one unless the session is in
  mode \<open>Recovering\<close>, where the call changes nothing; and a version captured on the
  object by a pending timer, a toast interval or a suspended \<open>executeInjection\<close> before
  the call is below the object's version after the call and after any further steps.
\<close>

theorem invalidate_bumps_version_unless_recovering:
  assumes "st = run before createTodoContinuationEnforcer" and "sessions st sid = Some a"
  shows "(mode (heap st a) \<noteq> Recovering \<longrightarrow>
            version (heap (invalidate sid st) a) = version (heap st a) + 1) \<and>
         (mode (heap st a) = Recovering \<longrightarrow> invalidate sid st = st) \<and>
         (captured st a cv \<longrightarrow> cv < version (heap (run later (invalidate sid st)) a))"
proof -
  have c: "consistent st"
    unfolding assms(1) by (rule consistent_run[OF consistent_initially])
  have 1: "version (heap (invalidate sid st) a) = version (heap st a) + 1"
    if "mode (heap st a) \<noteq> Recovering"
    using that assms(2)
    by (simp add: invalidate_def updateObject_def invalidated_def clearTimer_def Let_def)
  have 2: "invalidate sid st = st" if "mode (heap st a) = Recovering"
    using that assms(2) by (simp add: invalidate_def)
  have 3: "cv < version (heap (run later (invalidate sid st)) a)" if cap: "captured st a cv"
  proof -
    from after_invalidate[OF c assms(2)] cap
    have lt: "cv < version (heap (invalidate sid st) a)" by simp
    from consistentD(5)[OF c assms(2)] have "a < nextAddr (invalidate sid st)"
      by (simp add: invalidate_frame)
    with grows_run[of "invalidate sid st" later]
    have "version (heap (invalidate sid st) a) \<le> version (heap (run later (invalidate sid st)) a)"
      by (simp add: grows_def)
    with lt show ?thesis by simp
  qed
  from 1 2 3 show ?thesis by blast
qed

theorem invalidate_bumps_version_witness:
  "mode (heap countdownPending 0) \<noteq> Recovering \<and>
   captured countdownPending 0 2 \<and>
   version (heap (invalidate ''ses_main'' countdownPending) 0) = 3 \<and>
   2 < version (heap (run [(quietSurroundings, TimerFires 0)]
                        (invalidate ''ses_main'' countdownPending)) 0)"
  using invalidate_bumps_version_unless_recovering[OF countdownPending_def countdownPending_object(1),
      of 2 "[(quietSurroundings, TimerFires 0)]"]
  by (simp add: countdownPending_object(2) captured_def)

subsection \<open>After \<open>session.error\<close>\<close>

lemma bypassedAtD:
  assumes "bypassedAt sid a ps st"
  shows "sessions st sid = Some a" "a < nextAddr st" "sessions st s = Some a \<Longrightarrow> s = sid"
    "mode (heap st a) = ErrorBypass" "timer (heap st a) = None"
    "nothingInFlight st sid" "promptsTo sid (emitted st) = ps"
  using assms unfolding bypassedAt_def by blast+

lemma nothingInFlight_iff:
  "nothingInFlight st sid \<longleftrightarrow>
     IdleAwaitsTodos sid \<notin> set (suspended st) \<and>
     (\<forall>s a cv. InjectionAwaitsTodos s a cv \<in> set (suspended st) \<longrightarrow>
         s \<noteq> sid \<and> sessions st sid \<noteq> Some a) \<and>
     (\<forall>a. InjectionAwaitsPrompt a \<in> set (suspended st) \<longrightarrow> sessions st sid \<noteq> Some a)"
proof
  assume "nothingInFlight st sid"
  then have n: "\<And>k. k \<in> set (suspended st) \<Longrightarrow> \<not> inFlightFor st sid k"
    by (simp add: nothingInFlight_def filter_empty_conv)
  from n[of "IdleAwaitsTodos sid"] n[of "InjectionAwaitsTodos _ _ _"] n[of "InjectionAwaitsPrompt _"]
  show "IdleAwaitsTodos sid \<notin> set (suspended st) \<and>
     (\<forall>s a cv. InjectionAwaitsTodos s a cv \<in> set (suspended st) \<longrightarrow>
         s \<noteq> sid \<and> sessions st sid \<noteq> Some a) \<and>
     (\<forall>a. InjectionAwaitsPrompt a \<in> set (suspended st) \<longrightarrow> sessions st sid \<noteq> Some a)"
    by (auto simp: inFlightFor_def)
next
  assume "IdleAwaitsTodos sid \<notin> set (suspended st) \<and>
     (\<forall>s a cv. InjectionAwaitsTodos s a cv \<in> set (suspended st) \<longrightarrow>
         s \<noteq> sid \<and> sessions st sid \<noteq> Some a) \<and>
     (\<forall>a. InjectionAwaitsPrompt a \<in> set (suspended st) \<longrightarrow> sessions st sid \<noteq> Some a)"
  then show "nothingInFlight st sid"
    by (auto simp: nothingInFlight_def filter_empty_conv inFlightFor_def split: Suspended.splits)
qed

lemma inFlightFor_cong:
  "sessions st' sid = sessions st sid \<Longrightarrow> inFlightFor st' sid k = inFlightFor st sid k"
  by (cases k) (simp_all add: inFlightFor_def)

lemma nothingInFlight_subset:
  assumes "nothingInFlight st sid" "sessions st' sid = sessions st sid"
    and "set (suspended st') \<subseteq> set (suspended st)"
  shows "nothingInFlight st' sid"
proof -
  from assms(1) have "\<And>k. k \<in> set (suspended st) \<Longrightarrow> \<not> inFlightFor st sid k"
    by (simp add: nothingInFlight_def filter_empty_conv)
  with assms(3) have "\<And>k. k \<in> set (suspended st') \<Longrightarrow> \<not> inFlightFor st' sid k"
    unfolding inFlightFor_cong[OF assms(2)] by blast
  then show ?thesis by (simp add: nothingInFlight_def filter_empty_conv)
qed

lemma nothingInFlight_append:
  assumes "nothingInFlight st sid" "sessions st' sid = sessions st sid"
    and "suspended st' = suspended st @ [k]" "\<not> inFlightFor st sid k"
  shows "nothingInFlight st' sid"
  using assms(1,4) unfolding nothingInFlight_def assms(3) inFlightFor_cong[OF assms(2)]
  by simp

lemma bypassed_updateObject:
  assumes b: "bypassedAt sid a ps st"
    and f: "b = a \<Longrightarrow> mode (f (heap st a)) = ErrorBypass \<and> timer (f (heap st a)) = None"
  shows "bypassedAt sid a ps (updateObject b f st)"
proof -
  have n: "nothingInFlight (updateObject b f st) sid"
    by (rule nothingInFlight_subset[OF bypassedAtD(6)[OF b]]) (simp_all add: updateObject_def)
  have h: "mode (heap (updateObject b f st) a) = ErrorBypass \<and>
           timer (heap (updateObject b f st) a) = None"
    using f bypassedAtD(4,5)[OF b] by (cases "b = a") (simp_all add: updateObject_def)
  from b n h show ?thesis
    unfolding bypassedAt_def by (simp add: updateObject_def)
qed

lemma bypassed_lists:
  assumes "bypassedAt sid a ps st"
    and "sessions st' = sessions st" "heap st' = heap st" "nextAddr st' = nextAddr st"
    and "promptsTo sid (emitted st') = promptsTo sid (emitted st)"
    and "nothingInFlight st' sid"
  shows "bypassedAt sid a ps st'"
  using assms by (simp add: bypassedAt_def)

lemma bypassed_invalidate:
  assumes b: "bypassedAt sid a ps st"
  shows "bypassedAt sid a ps (invalidate s st)"
proof (cases "sessions st s")
  case None
  with b show ?thesis by (simp add: invalidate_def)
next
  case (Some c)
  have "bypassedAt sid a ps (updateObject c invalidated st)"
    by (rule bypassed_updateObject[OF b])
      (simp add: invalidated_def clearTimer_def Let_def bypassedAtD(4)[OF b])
  with b Some show ?thesis by (simp add: invalidate_def)
qed

lemma bypassed_getOrCreate:
  assumes b: "bypassedAt sid a ps st"
  shows "bypassedAt sid a ps (snd (getOrCreateState s st))"
    and "fst (getOrCreateState s st) = a \<longleftrightarrow> s = sid"
proof -
  show "bypassedAt sid a ps (snd (getOrCreateState s st))"
  proof (cases "sessions st s")
    case (Some c)
    with b show ?thesis by (simp add: getOrCreateState_def)
  next
    case None
    let ?st' = "st\<lparr>sessions := (sessions st)(s \<mapsto> nextAddr st),
                     heap := (heap st)(nextAddr st := newSessionState),
                     nextAddr := nextAddr st + 1\<rparr>"
    from None bypassedAtD(1)[OF b] have ne: "s \<noteq> sid" by auto
    from bypassedAtD(2)[OF b] have na: "a \<noteq> nextAddr st" by simp
    have n: "nothingInFlight ?st' sid"
      by (rule nothingInFlight_subset[OF bypassedAtD(6)[OF b]]) (simp_all add: ne ne[symmetric])
    have i: "s' = sid" if "sessions ?st' s' = Some a" for s'
    proof (cases "s' = s")
      case True
      with that na show ?thesis by simp
    next
      case False
      with that have "sessions st s' = Some a" by simp
      then show ?thesis by (rule bypassedAtD(3)[OF b])
    qed
    have "bypassedAt sid a ps ?st'"
      unfolding bypassedAt_def
    proof (intro conjI allI impI)
      fix s' assume "sessions ?st' s' = Some a"
      then show "s' = sid" by (rule i)
    qed (use n ne ne[symmetric] na bypassedAtD(1,2,4,5,7)[OF b] in simp_all)
    with None show ?thesis by (simp add: getOrCreateState_def)
  qed
  show "fst (getOrCreateState s st) = a \<longleftrightarrow> s = sid"
  proof (cases "sessions st s")
    case (Some c)
    with bypassedAtD(1)[OF b] bypassedAtD(3)[OF b, of s] show ?thesis
      by (auto simp: getOrCreateState_def)
  next
    case None
    with bypassedAtD(1,2)[OF b] show ?thesis
      by (auto simp: getOrCreateState_def)
  qed
qed

lemma bypassed_other_object:
  assumes b: "bypassedAt sid a ps st" and "sessions st s = Some c" "s \<noteq> sid"
  shows "c \<noteq> a"
  using bypassedAtD(3)[OF b, of s] assms(2,3) by auto

lemma promptsTo_toast [simp]:
  "promptsTo sid (es @ [CountdownToast k n]) = promptsTo sid es"
  by (simp add: promptsTo_def)

lemma bypassed_markRecovering:
  assumes b: "bypassedAt sid a ps st" and ne: "s \<noteq> sid"
  shows "bypassedAt sid a ps (markRecovering s st)"
proof -
  define c where "c = fst (getOrCreateState s st)"
  define st2 where "st2 = invalidate s (snd (getOrCreateState s st))"
  have b2: "bypassedAt sid a ps st2"
    unfolding st2_def by (rule bypassed_invalidate[OF bypassed_getOrCreate(1)[OF b]])
  from bypassed_getOrCreate(2)[OF b, of s] ne have ca: "c \<noteq> a" by (simp add: c_def)
  have "bypassedAt sid a ps (updateObject c (\<lambda>x. x\<lparr>mode := Recovering\<rparr>) st2)"
    by (rule bypassed_updateObject[OF b2]) (simp add: ca)
  then show ?thesis
    by (simp add: markRecovering_def c_def st2_def Let_def case_prod_beta)
qed

lemma bypassed_markRecoveryComplete:
  assumes b: "bypassedAt sid a ps st"
  shows "bypassedAt sid a ps (markRecoveryComplete s st)"
proof (cases "sessions st s")
  case None
  with b show ?thesis by (simp add: markRecoveryComplete_def)
next
  case (Some c)
  show ?thesis
  proof (cases "c = a")
    case True
    with Some b bypassedAtD(4)[OF b] show ?thesis by (simp add: markRecoveryComplete_def)
  next
    case False
    have "bypassedAt sid a ps (updateObject c (\<lambda>x. x\<lparr>mode := Idle\<rparr>) st)"
      by (rule bypassed_updateObject[OF b]) (simp add: False)
    with Some b show ?thesis by (simp add: markRecoveryComplete_def)
  qed
qed

lemma bypassed_executeInjection:
  assumes b: "bypassedAt sid a ps st"
  shows "bypassedAt sid a ps (executeInjection env s cv st)"
proof (cases "sessions st s")
  case None
  with b show ?thesis by (simp add: executeInjection_def)
next
  case (Some c)
  show ?thesis
  proof (cases "c = a")
    case True
    with Some b bypassedAtD(4)[OF b] show ?thesis by (simp add: executeInjection_def)
  next
    case False
    from bypassedAtD(1)[OF b] Some False have ne: "s \<noteq> sid" by auto
    have i: "bypassedAt sid a ps (updateObject c (\<lambda>x. x\<lparr>mode := Idle\<rparr>) st)"
      by (rule bypassed_updateObject[OF b]) (simp add: False)
    have j: "bypassedAt sid a ps (updateObject c (\<lambda>x. x\<lparr>mode := Injecting\<rparr>) st)"
      by (rule bypassed_updateObject[OF b]) (simp add: False)
    have "bypassedAt sid a ps ((updateObject c (\<lambda>x. x\<lparr>mode := Injecting\<rparr>) st)
            \<lparr>suspended := suspended st @ [InjectionAwaitsTodos s c cv]\<rparr>)"
      by (rule bypassed_lists[OF j], simp_all)
        (rule nothingInFlight_append[OF bypassedAtD(6)[OF j], where k = "InjectionAwaitsTodos s c cv"],
          simp_all add: updateObject_def inFlightFor_def ne bypassedAtD(1)[OF b] False[symmetric])
    with b i Some show ?thesis by (simp add: executeInjection_def)
  qed
qed

lemma bypassed_injectionAfterTodos:
  assumes b: "bypassedAt sid a ps st" and ne: "s \<noteq> sid" "c \<noteq> a"
  shows "bypassedAt sid a ps (injectionAfterTodos env s c cv st)"
proof -
  have i: "bypassedAt sid a ps (updateObject c (\<lambda>x. x\<lparr>mode := Idle\<rparr>) st)"
    by (rule bypassed_updateObject[OF b]) (simp add: ne)
  have j: "bypassedAt sid a ps (updateObject c (\<lambda>x. x\<lparr>lastAttemptedAt := t\<rparr>) st)" for t
    by (rule bypassed_updateObject[OF b]) (simp add: ne)
  have "bypassedAt sid a ps ((updateObject c (\<lambda>x. x\<lparr>lastAttemptedAt := t\<rparr>) st)
          \<lparr>emitted := emitted st @ [ContinuationPrompt s ag body],
            suspended := suspended st @ [InjectionAwaitsPrompt c]\<rparr>)" for t ag body
    by (rule bypassed_lists[OF j[of t]], simp_all add: updateObject_def promptsTo_def ne)
      (rule nothingInFlight_append[OF bypassedAtD(6)[OF b], where k = "InjectionAwaitsPrompt c"],
        simp_all add: inFlightFor_def bypassedAtD(1)[OF b] ne(2)[symmetric])
  with i show ?thesis
    by (simp add: injectionAfterTodos_def Let_def split: option.splits)
qed

lemma bypassed_injectionAfterPrompt:
  assumes b: "bypassedAt sid a ps st" and ne: "c \<noteq> a"
  shows "bypassedAt sid a ps (injectionAfterPrompt c st)"
  unfolding injectionAfterPrompt_def
  by (rule bypassed_updateObject[OF b]) (simp add: ne)

lemma bypassed_startCountdown:
  assumes b: "bypassedAt sid a ps st" and ne: "s \<noteq> sid"
  shows "bypassedAt sid a ps (startCountdown s n st)"
proof -
  define c where "c = fst (getOrCreateState s st)"
  define st2 where "st2 = invalidate s (snd (getOrCreateState s st))"
  define cv where "cv = version (heap st2 c) + 1"
  have b2: "bypassedAt sid a ps st2"
    unfolding st2_def by (rule bypassed_invalidate[OF bypassed_getOrCreate(1)[OF b]])
  from bypassed_getOrCreate(2)[OF b, of s] ne have ca: "c \<noteq> a" by (simp add: c_def)
  have b3: "bypassedAt sid a ps
      (updateObject c (\<lambda>x. x\<lparr>version := version x + 1, mode := CountingDown\<rparr>) st2)"
    by (rule bypassed_updateObject[OF b2]) (simp add: ca)
  have b4: "bypassedAt sid a ps
      ((updateObject c (\<lambda>x. x\<lparr>version := version x + 1, mode := CountingDown\<rparr>) st2)
         \<lparr>emitted := emitted st2 @ [CountdownToast COUNTDOWN_SECONDS n],
           intervals := intervals st2 @ [(c, cv, COUNTDOWN_SECONDS, n)]\<rparr>)"
    by (rule bypassed_lists[OF b3], simp_all add: updateObject_def)
      (rule nothingInFlight_subset[OF bypassedAtD(6)[OF b2]], simp_all)
  have "bypassedAt sid a ps (updateObject c (\<lambda>x. x\<lparr>timer := Some (s, cv)\<rparr>)
      ((updateObject c (\<lambda>x. x\<lparr>version := version x + 1, mode := CountingDown\<rparr>) st2)
         \<lparr>emitted := emitted st2 @ [CountdownToast COUNTDOWN_SECONDS n],
           intervals := intervals st2 @ [(c, cv, COUNTDOWN_SECONDS, n)]\<rparr>))"
    by (rule bypassed_updateObject[OF b4]) (simp add: ca)
  then show ?thesis
    by (simp add: startCountdown_def c_def st2_def cv_def updateObject_def Let_def case_prod_beta)
qed

lemma bypassed_timerFires:
  assumes b: "bypassedAt sid a ps st"
  shows "bypassedAt sid a ps (timerFires env c st)"
proof (cases "timer (heap st c)")
  case None
  with b show ?thesis by (simp add: timerFires_def)
next
  case (Some p)
  with bypassedAtD(5)[OF b] have ca: "c \<noteq> a" by auto
  have 1: "bypassedAt sid a ps (st\<lparr>intervals := xs\<rparr>)" for xs
    by (rule bypassed_lists[OF b], simp_all)
      (rule nothingInFlight_subset[OF bypassedAtD(6)[OF b]], simp_all)
  have "bypassedAt sid a ps (updateObject c clearTimer (st\<lparr>intervals := xs\<rparr>))" for xs
    by (rule bypassed_updateObject[OF 1]) (simp add: ca)
  from bypassed_executeInjection[OF this] Some show ?thesis
    by (simp add: timerFires_def split: prod.splits)
qed

lemma bypassed_toastTick:
  assumes b: "bypassedAt sid a ps st"
  shows "bypassedAt sid a ps (toastTick iv st)"
proof -
  have n: "nothingInFlight (st\<lparr>intervals := xs, emitted := es\<rparr>) sid" for xs es
    by (rule nothingInFlight_subset[OF bypassedAtD(6)[OF b]]) simp_all
  have "bypassedAt sid a ps (st\<lparr>intervals := xs, emitted := emitted st @ es\<rparr>)"
    if "es = [] \<or> (\<exists>k n. es = [CountdownToast k n])" for xs es
    by (rule bypassed_lists[OF b]) (use that n in auto)
  from this[of "[]"] this b show ?thesis
    by (cases iv) (simp add: toastTick_def)
qed

lemma bypassed_idleReceived:
  assumes b: "bypassedAt sid a ps st"
  shows "bypassedAt sid a ps (idleReceived env s st)"
proof (cases "falsy s \<or> \<not> isMainSession env (the s)")
  case True
  with b show ?thesis by (auto simp: idleReceived_def)
next
  case False
  define c where "c = fst (getOrCreateState (the s) st)"
  define st1 where "st1 = snd (getOrCreateState (the s) st)"
  have b1: "bypassedAt sid a ps st1"
    unfolding st1_def by (rule bypassed_getOrCreate(1)[OF b])
  show ?thesis
  proof (cases "the s = sid")
    case True
    with bypassed_getOrCreate(2)[OF b, of "the s"] have "c = a" by (simp add: c_def)
    with bypassedAtD(4)[OF b1] b1 False show ?thesis
      by (simp add: idleReceived_def c_def st1_def case_prod_beta)
  next
    case ne: False
    have "bypassedAt sid a ps (st1\<lparr>suspended := suspended st1 @ [IdleAwaitsTodos (the s)]\<rparr>)"
      by (rule bypassed_lists[OF b1], simp_all)
        (rule nothingInFlight_append[OF bypassedAtD(6)[OF b1], where k = "IdleAwaitsTodos (the s)"],
          simp_all add: inFlightFor_def ne)
    with b1 False show ?thesis
      by (simp add: idleReceived_def c_def st1_def case_prod_beta)
  qed
qed

lemma bypassed_idleAfterTodos:
  assumes b: "bypassedAt sid a ps st" and ne: "s \<noteq> sid"
  shows "bypassedAt sid a ps (idleAfterTodos env s st)"
  using b bypassed_startCountdown[OF b ne]
  by (simp add: idleAfterTodos_def split: option.splits)

lemma bypassed_forget_session:
  assumes b: "bypassedAt sid a ps st" and ne: "s \<noteq> sid"
  shows "bypassedAt sid a ps (st\<lparr>sessions := (sessions st)(s := None)\<rparr>)"
proof -
  have n: "nothingInFlight (st\<lparr>sessions := (sessions st)(s := None)\<rparr>) sid"
    by (rule nothingInFlight_subset[OF bypassedAtD(6)[OF b]]) (simp_all add: ne ne[symmetric])
  show ?thesis
    unfolding bypassedAt_def
  proof (intro conjI allI impI)
    fix s' assume "sessions (st\<lparr>sessions := (sessions st)(s := None)\<rparr>) s' = Some a"
    then have "sessions st s' = Some a" by (simp split: if_splits)
    then show "s' = sid" by (rule bypassedAtD(3)[OF b])
  qed (use n ne ne[symmetric] bypassedAtD(1,2,4,5,7)[OF b] in simp_all)
qed

lemma bypassed_handler:
  assumes b: "bypassedAt sid a ps st" and q: "quietFor sid (Deliver ev)"
  shows "bypassedAt sid a ps (handler env ev st)"
proof (cases ev)
  case (SessionError s)
  show ?thesis
  proof (cases "falsy s")
    case True
    with b show ?thesis by (simp add: handler_def SessionError)
  next
    case False
    define c where "c = fst (getOrCreateState (the s) st)"
    define st2 where "st2 = invalidate (the s) (snd (getOrCreateState (the s) st))"
    have b2: "bypassedAt sid a ps st2"
      unfolding st2_def by (rule bypassed_invalidate[OF bypassed_getOrCreate(1)[OF b]])
    have "bypassedAt sid a ps (updateObject c (\<lambda>x. x\<lparr>mode := ErrorBypass\<rparr>) st2)"
      by (rule bypassed_updateObject[OF b2]) (simp add: bypassedAtD(5)[OF b2])
    with False show ?thesis
      by (simp add: handler_def SessionError c_def st2_def Let_def case_prod_beta)
  qed
next
  case (SessionIdle s)
  with bypassed_idleReceived[OF b] show ?thesis by (simp add: handler_def)
next
  case (MessageUpdated s msgRole finish)
  show ?thesis
  proof (cases "\<not> falsy s \<and> msgRole = Some ''user''")
    case True
    with q have ne: "the s \<noteq> sid"
      by (auto simp: quietFor_def MessageUpdated falsy_def split: option.splits)
    have "bypassedAt sid a ps (updateObject c (\<lambda>x. x\<lparr>mode := Idle\<rparr>) st)"
      if "sessions st (the s) = Some c" for c
      by (rule bypassed_updateObject[OF b]) (use bypassed_other_object[OF b that ne] in simp)
    with True b show ?thesis
      by (simp add: handler_def MessageUpdated bypassed_invalidate split: option.splits)
  next
    case False
    with b show ?thesis
      by (auto simp: handler_def MessageUpdated bypassed_invalidate)
  qed
next
  case (MessagePartUpdated s msgRole)
  with b show ?thesis by (simp add: handler_def bypassed_invalidate)
next
  case (ToolExecuteBefore s)
  with b show ?thesis by (simp add: handler_def bypassed_invalidate)
next
  case (ToolExecuteAfter s)
  with b show ?thesis by (simp add: handler_def bypassed_invalidate)
next
  case (SessionDeleted s)
  show ?thesis
  proof (cases "falsy s")
    case True
    with b show ?thesis by (simp add: handler_def SessionDeleted)
  next
    case False
    with q have ne: "the s \<noteq> sid"
      by (auto simp: quietFor_def SessionDeleted falsy_def split: option.splits)
    have "bypassedAt sid a ps ((updateObject c clearTimer st)\<lparr>sessions := (sessions st)(the s := None)\<rparr>)"
      if "sessions st (the s) = Some c" for c
    proof -
      have "bypassedAt sid a ps (updateObject c clearTimer st)"
        by (rule bypassed_updateObject[OF b]) (use bypassed_other_object[OF b that ne] in simp)
      from bypassed_forget_session[OF this ne] show ?thesis by (simp add: updateObject_def)
    qed
    with False bypassed_forget_session[OF b ne] show ?thesis
      by (simp add: handler_def SessionDeleted split: option.splits)
  qed
next
  case OtherEvent
  with b show ?thesis by (simp add: handler_def)
qed

lemma bypassed_resume:
  assumes b: "bypassedAt sid a ps st"
    and f: "\<And>s. bypassedAt sid a ps s \<Longrightarrow> k \<in> set (suspended st) \<Longrightarrow> bypassedAt sid a ps (f s)"
  shows "bypassedAt sid a ps (resume k f st)"
proof (cases "k \<in> set (suspended st)")
  case True
  have "bypassedAt sid a ps (st\<lparr>suspended := remove1 k (suspended st)\<rparr>)"
    by (rule bypassed_lists[OF b], simp_all)
      (rule nothingInFlight_subset[OF bypassedAtD(6)[OF b]],
        use set_remove1_subset[of k "suspended st"] in simp_all)
  from f[OF this True] True show ?thesis by (simp add: resume_def)
next
  case False
  with b show ?thesis by (simp add: resume_def)
qed

lemma bypassed_step:
  assumes b: "bypassedAt sid a ps st" and q: "quietFor sid s"
  shows "bypassedAt sid a ps (step (env, s) st)"
proof (cases s)
  case (Deliver ev)
  with bypassed_handler[OF b] q show ?thesis by (simp add: step_def)
next
  case (TodosForIdle s')
  have "bypassedAt sid a ps (resume (IdleAwaitsTodos s') (idleAfterTodos env s') st)"
  proof (rule bypassed_resume[OF b])
    fix x assume x: "bypassedAt sid a ps x" and k: "IdleAwaitsTodos s' \<in> set (suspended st)"
    from bypassedAtD(6)[OF b] k have "s' \<noteq> sid" unfolding nothingInFlight_iff by blast
    from bypassed_idleAfterTodos[OF x this] show "bypassedAt sid a ps (idleAfterTodos env s' x)" .
  qed
  with TodosForIdle show ?thesis by (simp add: step_def)
next
  case (TimerFires c)
  with bypassed_timerFires[OF b] show ?thesis by (simp add: step_def)
next
  case (ToastTick iv)
  with bypassed_toastTick[OF b] show ?thesis by (simp add: step_def)
next
  case (TodosForInjection s' c cv)
  have "bypassedAt sid a ps (resume (InjectionAwaitsTodos s' c cv) (injectionAfterTodos env s' c cv) st)"
  proof (rule bypassed_resume[OF b])
    fix x assume x: "bypassedAt sid a ps x"
      and k: "InjectionAwaitsTodos s' c cv \<in> set (suspended st)"
    from bypassedAtD(6)[OF b] k bypassedAtD(1)[OF b] have "s' \<noteq> sid" "c \<noteq> a"
      unfolding nothingInFlight_iff by auto
    from bypassed_injectionAfterTodos[OF x this]
    show "bypassedAt sid a ps (injectionAfterTodos env s' c cv x)" .
  qed
  with TodosForInjection show ?thesis by (simp add: step_def)
next
  case (PromptSettles c)
  have "bypassedAt sid a ps (resume (InjectionAwaitsPrompt c) (injectionAfterPrompt c) st)"
  proof (rule bypassed_resume[OF b])
    fix x assume x: "bypassedAt sid a ps x" and k: "InjectionAwaitsPrompt c \<in> set (suspended st)"
    from bypassedAtD(6)[OF b] k bypassedAtD(1)[OF b] have "c \<noteq> a"
      unfolding nothingInFlight_iff by auto
    from bypassed_injectionAfterPrompt[OF x this]
    show "bypassedAt sid a ps (injectionAfterPrompt c x)" .
  qed
  with PromptSettles show ?thesis by (simp add: step_def)
next
  case (MarkRecovering s')
  with q have "s' \<noteq> sid" by (simp add: quietFor_def)
  from bypassed_markRecovering[OF b this] MarkRecovering show ?thesis by (simp add: step_def)
next
  case (MarkRecoveryComplete s')
  with bypassed_markRecoveryComplete[OF b] show ?thesis by (simp add: step_def)
qed

lemma bypassed_run:
  assumes "bypassedAt sid a ps st" "list_all (\<lambda>es. quietFor sid (snd es)) later"
  shows "bypassedAt sid a ps (run later st)"
  using assms(2)
proof (induction later rule: rev_induct)
  case Nil
  from assms(1) show ?case by (simp add: run_def)
next
  case (snoc es later)
  then have b: "bypassedAt sid a ps (run later st)" and q: "quietFor sid (snd es)" by simp_all
  from bypassed_step[OF b q, of "fst es"] show ?case by (simp add: run_snoc)
qed

lemma error_enters_bypass:
  assumes c: "consistent st" and ne: "sid \<noteq> []"
  shows "sessions (handler env (SessionError (Some sid)) st) sid = Some (fst (getOrCreateState sid st)) \<and>
         mode (heap (handler env (SessionError (Some sid)) st) (fst (getOrCreateState sid st))) = ErrorBypass \<and>
         timer (heap (handler env (SessionError (Some sid)) st) (fst (getOrCreateState sid st))) = None"
proof -
  define a where "a = fst (getOrCreateState sid st)"
  define st1 where "st1 = snd (getOrCreateState sid st)"
  have c1: "consistent st1" unfolding st1_def by (rule consistent_getOrCreate[OF c])
  have s1: "sessions st1 sid = Some a" unfolding st1_def a_def by (rule getOrCreateState_props(1))
  from after_invalidate[OF c1 s1] have t: "timer (heap (invalidate sid st1) a) = None" by simp
  have e: "handler env (SessionError (Some sid)) st
             = updateObject a (\<lambda>x. x\<lparr>mode := ErrorBypass\<rparr>) (invalidate sid st1)"
    using ne by (simp add: handler_def falsy_def a_def st1_def Let_def case_prod_beta)
  show ?thesis
    unfolding a_def[symmetric] e using t s1
    by (simp add: updateObject_def invalidate_frame)
qed

text \<open>
  C9, as stated, at the main session: after \<open>session.error\<close> the mode is \<open>ErrorBypass\<close>;
  the recovery hook then marks the session as recovering and as recovered, which leaves
  it in mode \<open>Idle\<close>; the next \<open>session.idle\<close> starts a countdown, and when it elapses
  the continuation prompt is sent. No user message has arrived.
\<close>

theorem recovery_after_error_lets_idle_continue:
  "modeOf (run (take 1 errorThenRecovery) createTodoContinuationEnforcer) ''ses_main''
     = Some ErrorBypass \<and>
   modeOf (run (take 5 errorThenRecovery) createTodoContinuationEnforcer) ''ses_main''
     = Some CountingDown \<and>
   timerOf (run (take 5 errorThenRecovery) createTodoContinuationEnforcer) ''ses_main''
     = Some (''ses_main'', 4) \<and>
   emitted (run errorThenRecovery createTodoContinuationEnforcer)
     = [CountdownToast 2 2, ContinuationPrompt ''ses_main'' None (continuationText threeTodos)]"
  by (simp add: errorThenRecovery_def enforcer_defs quietSurroundings_def threeTodos_counts
      COUNTDOWN_SECONDS_def agentHasWritePermission_def isPlanModeAgent_def agentOf_def)

text \<open>
  The mode \<open>ErrorBypass\<close> is also lost when the error arrives while \<open>executeInjection\<close>
  awaits \<open>session.prompt\<close>: when the prompt returns, the function sets the mode to
  \<open>Idle\<close> without looking at the version, and the next \<open>session.idle\<close> starts a
  countdown.
\<close>

lemma prompt_return_clears_error_bypass:
  "modeOf (run (take 5 errorDuringPrompt) createTodoContinuationEnforcer) ''ses_main''
     = Some ErrorBypass \<and>
   modeOf (run (take 6 errorDuringPrompt) createTodoContinuationEnforcer) ''ses_main''
     = Some Idle \<and>
   modeOf (run errorDuringPrompt createTodoContinuationEnforcer) ''ses_main''
     = Some CountingDown"
  by (simp add: errorDuringPrompt_def enforcer_defs quietSurroundings_def threeTodos_counts
      COUNTDOWN_SECONDS_def agentHasWritePermission_def isPlanModeAgent_def agentOf_def)

text \<open>
  C9, amended. In every state the enforcer can reach, \<open>session.error\<close> for a session
  sets the session's mode to \<open>ErrorBypass\<close>. If at that moment nothing of the session is
  in flight, then through any further steps that bring no user message and no
  \<open>session.deleted\<close> for the session and no \<open>markRecovering\<close> for it, the mode stays
  \<open>ErrorBypass\<close>, no timer of the session is pending and no further continuation prompt
  is sent to it, whatever \<open>session.idle\<close> events arrive. A \<open>message.updated\<close> with role
  \<open>user\<close> for the session then sets the mode to \<open>Idle\<close>.
\<close>

theorem error_bypass_holds_until_user_message:
  assumes "st = run before createTodoContinuationEnforcer" and "sid \<noteq> []"
    and "st1 = step (env, Deliver (SessionError (Some sid))) st"
    and "nothingInFlight st1 sid"
    and "list_all (\<lambda>es. quietFor sid (snd es)) later"
  shows "modeOf st1 sid = Some ErrorBypass \<and>
         modeOf (run later st1) sid = Some ErrorBypass \<and>
         timerOf (run later st1) sid = None \<and>
         promptsTo sid (emitted (run later st1)) = promptsTo sid (emitted st1) \<and>
         modeOf (step (env', Deliver (MessageUpdated (Some sid) (Some ''user'') fin))
                   (run later st1)) sid = Some Idle"
proof -
  define a where "a = fst (getOrCreateState sid st)"
  define st2 where "st2 = run later st1"
  have c: "consistent st"
    unfolding assms(1) by (rule consistent_run[OF consistent_initially])
  have h: "st1 = handler env (SessionError (Some sid)) st"
    by (simp add: assms(3) step_def)
  have c1: "consistent st1"
    unfolding assms(3) by (rule consistent_step[OF c])
  from error_enters_bypass[OF c assms(2), of env]
  have e: "sessions st1 sid = Some a" "mode (heap st1 a) = ErrorBypass" "timer (heap st1 a) = None"
    unfolding h a_def by simp_all
  have b1: "bypassedAt sid a (promptsTo sid (emitted st1)) st1"
    unfolding bypassedAt_def
  proof (intro conjI allI impI)
    fix s assume "sessions st1 s = Some a"
    from consistentD(6)[OF c1 this e(1)] show "s = sid" .
  qed (use e assms(4) consistentD(5)[OF c1 e(1)] in simp_all)
  have b2: "bypassedAt sid a (promptsTo sid (emitted st1)) st2"
    unfolding st2_def by (rule bypassed_run[OF b1 assms(5)])
  note d = bypassedAtD(1,4,5,7)[OF b2]
  have u: "modeOf (step (env', Deliver (MessageUpdated (Some sid) (Some ''user'') fin)) st2) sid
             = Some Idle"
    using d(1,2) assms(2)
    by (simp add: step_def handler_def falsy_def invalidate_def updateObject_def invalidated_def
        clearTimer_def Let_def modeOf_def)
  from e d u show ?thesis
    unfolding st2_def[symmetric] by (simp add: modeOf_def timerOf_def)
qed

theorem error_bypass_witness:
  "nothingInFlight afterError ''ses_main'' \<and>
   list_all (\<lambda>es. quietFor ''ses_main'' (snd es)) idleAgain \<and>
   modeOf afterError ''ses_main'' = Some ErrorBypass \<and>
   modeOf (run idleAgain afterError) ''ses_main'' = Some ErrorBypass \<and>
   timerOf (run idleAgain afterError) ''ses_main'' = None \<and>
   promptsTo ''ses_main'' (emitted (run idleAgain afterError)) = [] \<and>
   modeOf (step (quietSurroundings, Deliver (MessageUpdated (Some ''ses_main'') (Some ''user'') None))
             (run idleAgain afterError)) ''ses_main'' = Some Idle"
proof -
  have s: "suspended afterError = []" "emitted afterError = [CountdownToast 2 2]"
    by (simp_all add: afterError_def step_def handler_def falsy_def getOrCreateState_def
        invalidate_def updateObject_def countdownPending_object)
  have n: "nothingInFlight afterError ''ses_main''"
    by (simp add: nothingInFlight_def s)
  have q: "list_all (\<lambda>es. quietFor ''ses_main'' (snd es)) idleAgain"
    by (simp add: idleAgain_def quietFor_def)
  have ne: "''ses_main'' \<noteq> []" by simp
  from error_bypass_holds_until_user_message[OF countdownPending_def ne afterError_def n q,
      of quietSurroundings None] n q
  show ?thesis by (simp add: s promptsTo_def)
qed

subsection \<open>Pending timers belong to the object of their session\<close>

lemma timersOwnedD:
  "timersOwned st \<Longrightarrow> timer (heap st b) = Some (s, cv) \<Longrightarrow> sessions st s = Some b"
  unfolding timersOwned_def by blast

lemma timersOwned_updateObject:
  assumes t: "timersOwned st"
    and f: "timer (f (heap st b)) = None \<or> timer (f (heap st b)) = timer (heap st b) \<or>
            (\<exists>s cv. timer (f (heap st b)) = Some (s, cv) \<and> sessions st s = Some b)"
  shows "timersOwned (updateObject b f st)"
  unfolding timersOwned_def
proof (intro allI impI)
  fix c s cv assume h: "timer (heap (updateObject b f st) c) = Some (s, cv)"
  show "sessions (updateObject b f st) s = Some c"
  proof (cases "c = b")
    case True
    with h have h': "timer (f (heap st b)) = Some (s, cv)" by (simp add: updateObject_def)
    with f consider "timer (heap st b) = Some (s, cv)" | "sessions st s = Some b" by auto
    then have "sessions st s = Some b" using timersOwnedD[OF t] by cases auto
    with True show ?thesis by (simp add: updateObject_def)
  next
    case False
    with h have "timer (heap st c) = Some (s, cv)" by (simp add: updateObject_def)
    from timersOwnedD[OF t this] show ?thesis by (simp add: updateObject_def)
  qed
qed

lemma timersOwned_lists:
  assumes "timersOwned st" "sessions st' = sessions st" "heap st' = heap st"
  shows "timersOwned st'"
  using assms by (simp add: timersOwned_def)

lemma timersOwned_getOrCreate:
  assumes t: "timersOwned st"
  shows "timersOwned (snd (getOrCreateState sid st))"
proof (cases "sessions st sid")
  case (Some a)
  with t show ?thesis by (simp add: getOrCreateState_def)
next
  case None
  let ?st' = "st\<lparr>sessions := (sessions st)(sid \<mapsto> nextAddr st),
                   heap := (heap st)(nextAddr st := newSessionState),
                   nextAddr := nextAddr st + 1\<rparr>"
  have "timersOwned ?st'"
    unfolding timersOwned_def
  proof (intro allI impI)
    fix b s cv assume h: "timer (heap ?st' b) = Some (s, cv)"
    then have nb: "b \<noteq> nextAddr st" by (auto simp: newSessionState_def)
    with h have "timer (heap st b) = Some (s, cv)" by simp
    from timersOwnedD[OF t this] have o: "sessions st s = Some b" .
    with None have "s \<noteq> sid" by auto
    with o show "sessions ?st' s = Some b" by simp
  qed
  with None show ?thesis by (simp add: getOrCreateState_def)
qed

lemma timersOwned_invalidate:
  assumes t: "timersOwned st"
  shows "timersOwned (invalidate sid st)"
proof -
  have "timersOwned (updateObject a invalidated st)" for a
    by (rule timersOwned_updateObject[OF t]) (simp add: invalidated_def clearTimer_def Let_def)
  with t show ?thesis by (simp add: invalidate_def split: option.splits)
qed

lemma timersOwned_set_mode:
  "timersOwned st \<Longrightarrow> timersOwned (updateObject a (\<lambda>s. s\<lparr>mode := m\<rparr>) st)"
  by (rule timersOwned_updateObject) simp_all

lemma timersOwned_markRecovering: "timersOwned st \<Longrightarrow> timersOwned (markRecovering sid st)"
  by (simp add: markRecovering_def Let_def case_prod_beta timersOwned_set_mode
      timersOwned_invalidate timersOwned_getOrCreate)

lemma timersOwned_markRecoveryComplete:
  "timersOwned st \<Longrightarrow> timersOwned (markRecoveryComplete sid st)"
  by (simp add: markRecoveryComplete_def timersOwned_set_mode split: option.splits)

lemma timersOwned_executeInjection:
  assumes t: "timersOwned st"
  shows "timersOwned (executeInjection env sid cv st)"
proof -
  have "timersOwned ((updateObject a (\<lambda>s. s\<lparr>mode := Injecting\<rparr>) st)\<lparr>suspended := xs\<rparr>)" for a xs
    by (rule timersOwned_lists[OF timersOwned_set_mode[OF t, of a Injecting]]) simp_all
  with t show ?thesis
    by (simp add: executeInjection_def timersOwned_set_mode split: option.splits)
qed

lemma timersOwned_injectionAfterTodos:
  assumes t: "timersOwned st"
  shows "timersOwned (injectionAfterTodos env sid a cv st)"
proof -
  have u: "timersOwned (updateObject a (\<lambda>s. s\<lparr>lastAttemptedAt := x\<rparr>) st)" for x
    by (rule timersOwned_updateObject[OF t]) simp
  have "timersOwned ((updateObject a (\<lambda>s. s\<lparr>lastAttemptedAt := x\<rparr>) st)
          \<lparr>emitted := es, suspended := xs\<rparr>)" for x es xs
    by (rule timersOwned_lists[OF u[of x]]) simp_all
  with t show ?thesis
    by (simp add: injectionAfterTodos_def Let_def timersOwned_set_mode split: option.splits)
qed

lemma timersOwned_injectionAfterPrompt:
  "timersOwned st \<Longrightarrow> timersOwned (injectionAfterPrompt a st)"
  by (simp add: injectionAfterPrompt_def timersOwned_set_mode)

lemma timersOwned_startCountdown:
  assumes t: "timersOwned st"
  shows "timersOwned (startCountdown sid n st)"
proof -
  define a where "a = fst (getOrCreateState sid st)"
  define st2 where "st2 = invalidate sid (snd (getOrCreateState sid st))"
  have t2: "timersOwned st2"
    unfolding st2_def by (rule timersOwned_invalidate[OF timersOwned_getOrCreate[OF t]])
  have s2: "sessions st2 sid = Some a"
    unfolding st2_def a_def by (simp add: invalidate_frame getOrCreateState_props(1))
  have t3: "timersOwned (updateObject a (\<lambda>s. s\<lparr>version := version s + 1, mode := CountingDown\<rparr>) st2)"
    by (rule timersOwned_updateObject[OF t2]) simp
  have t4: "timersOwned ((updateObject a (\<lambda>s. s\<lparr>version := version s + 1, mode := CountingDown\<rparr>) st2)
              \<lparr>emitted := es, intervals := ivs\<rparr>)" for es ivs
    by (rule timersOwned_lists[OF t3]) simp_all
  have "timersOwned (updateObject a (\<lambda>s. s\<lparr>timer := Some (sid, cv)\<rparr>)
          ((updateObject a (\<lambda>s. s\<lparr>version := version s + 1, mode := CountingDown\<rparr>) st2)
              \<lparr>emitted := es, intervals := ivs\<rparr>))" for es ivs cv
    by (rule timersOwned_updateObject[OF t4]) (simp add: s2 updateObject_def)
  then show ?thesis
    by (simp add: startCountdown_def a_def st2_def Let_def case_prod_beta)
qed

lemma timersOwned_clearTimer: "timersOwned st \<Longrightarrow> timersOwned (updateObject a clearTimer st)"
  by (rule timersOwned_updateObject) (simp_all add: clearTimer_def)

lemma timersOwned_timerFires:
  assumes t: "timersOwned st"
  shows "timersOwned (timerFires env a st)"
proof -
  have "timersOwned (st\<lparr>intervals := xs\<rparr>)" for xs
    by (rule timersOwned_lists[OF t]) simp_all
  from timersOwned_executeInjection[OF timersOwned_clearTimer[OF this]] t show ?thesis
    by (simp add: timerFires_def split: option.splits prod.splits)
qed

lemma timersOwned_toastTick: "timersOwned st \<Longrightarrow> timersOwned (toastTick iv st)"
  by (cases iv) (simp add: toastTick_def timersOwned_def)

lemma timersOwned_idleReceived:
  assumes t: "timersOwned st"
  shows "timersOwned (idleReceived env sid st)"
proof -
  have "timersOwned ((snd (getOrCreateState (the sid) st))\<lparr>suspended := xs\<rparr>)" for xs
    by (rule timersOwned_lists[OF timersOwned_getOrCreate[OF t]]) simp_all
  with t timersOwned_getOrCreate[OF t, of "the sid"] show ?thesis
    by (simp add: idleReceived_def Let_def case_prod_beta)
qed

lemma timersOwned_idleAfterTodos:
  "timersOwned st \<Longrightarrow> timersOwned (idleAfterTodos env sid st)"
  by (simp add: idleAfterTodos_def timersOwned_startCountdown split: option.splits)

lemma timersOwned_handler:
  assumes t: "timersOwned st"
  shows "timersOwned (handler env ev st)"
proof (cases ev)
  case (SessionError sid)
  with t show ?thesis
    by (simp add: handler_def Let_def case_prod_beta timersOwned_set_mode
        timersOwned_invalidate timersOwned_getOrCreate)
next
  case (SessionIdle sid)
  with t show ?thesis by (simp add: handler_def timersOwned_idleReceived)
next
  case (MessageUpdated sid msgRole finish)
  with t show ?thesis
    by (simp add: handler_def timersOwned_invalidate timersOwned_set_mode split: option.splits)
next
  case (MessagePartUpdated sid msgRole)
  with t show ?thesis by (simp add: handler_def timersOwned_invalidate)
next
  case (ToolExecuteBefore sid)
  with t show ?thesis by (simp add: handler_def timersOwned_invalidate)
next
  case (ToolExecuteAfter sid)
  with t show ?thesis by (simp add: handler_def timersOwned_invalidate)
next
  case (SessionDeleted sid)
  have 1: "timersOwned (st\<lparr>sessions := (sessions st)(the sid := None)\<rparr>)"
    if n: "sessions st (the sid) = None"
    unfolding timersOwned_def
  proof (intro allI impI)
    fix b s cv assume "timer (heap (st\<lparr>sessions := (sessions st)(the sid := None)\<rparr>) b) = Some (s, cv)"
    then have o: "sessions st s = Some b" using timersOwnedD[OF t] by simp
    with n have "s \<noteq> the sid" by auto
    with o show "sessions (st\<lparr>sessions := (sessions st)(the sid := None)\<rparr>) s = Some b" by simp
  qed
  have 2: "timersOwned ((updateObject a clearTimer st)\<lparr>sessions := (sessions st)(the sid := None)\<rparr>)"
    if n: "sessions st (the sid) = Some a" for a
    unfolding timersOwned_def
  proof (intro allI impI)
    fix b s cv
    assume h: "timer (heap ((updateObject a clearTimer st)\<lparr>sessions := (sessions st)(the sid := None)\<rparr>) b)
                 = Some (s, cv)"
    then have nb: "b \<noteq> a" by (auto simp: updateObject_def clearTimer_def)
    with h have "timer (heap st b) = Some (s, cv)" by (simp add: updateObject_def)
    from timersOwnedD[OF t this] have o: "sessions st s = Some b" .
    with n nb have "s \<noteq> the sid" by auto
    with o show "sessions ((updateObject a clearTimer st)\<lparr>sessions := (sessions st)(the sid := None)\<rparr>) s
                   = Some b"
      by (simp add: updateObject_def)
  qed
  from t 1 2 SessionDeleted show ?thesis
    by (simp add: handler_def split: option.splits)
next
  case OtherEvent
  with t show ?thesis by (simp add: handler_def)
qed

lemma timersOwned_resume:
  assumes "timersOwned st" "\<And>s. timersOwned s \<Longrightarrow> timersOwned (f s)"
  shows "timersOwned (resume k f st)"
proof -
  have "timersOwned (st\<lparr>suspended := xs\<rparr>)" for xs
    by (rule timersOwned_lists[OF assms(1)]) simp_all
  with assms show ?thesis by (simp add: resume_def)
qed

lemma timersOwned_step:
  assumes t: "timersOwned st"
  shows "timersOwned (step es st)"
proof -
  obtain env s where es: "es = (env, s)" by (cases es) auto
  show ?thesis
    unfolding es step_def
    by (cases s)
      (simp_all add: t timersOwned_handler timersOwned_resume timersOwned_idleAfterTodos
        timersOwned_timerFires timersOwned_toastTick timersOwned_injectionAfterTodos
        timersOwned_injectionAfterPrompt timersOwned_markRecovering
        timersOwned_markRecoveryComplete)
qed

lemma timersOwned_run: "timersOwned st \<Longrightarrow> timersOwned (run steps st)"
  by (induction steps rule: rev_induct) (simp_all add: run_snoc run_def timersOwned_step)

lemma timersOwned_initially: "timersOwned createTodoContinuationEnforcer"
  by (simp add: timersOwned_def createTodoContinuationEnforcer_def newSessionState_def)

subsection \<open>Steps that are foreign to a session\<close>

lemma standsD:
  assumes "stands sid a obj ks ps st"
  shows "sessions st sid = Some a" "a < nextAddr st" "sessions st s = Some a \<Longrightarrow> s = sid"
    "timer (heap st b) = Some (sid, cv) \<Longrightarrow> b = a" "heap st a = obj"
    "filter (about sid a) (suspended st) = ks" "promptsTo sid (emitted st) = ps"
  using assms unfolding stands_def owned_def by blast+

lemma stands_other_object:
  assumes b: "stands sid a obj ks ps st" and "sessions st s = Some c" "s \<noteq> sid"
  shows "c \<noteq> a"
  using standsD(3)[OF b, of s] assms(2,3) by auto

lemma stands_updateObject:
  assumes b: "stands sid a obj ks ps st" and ne: "c \<noteq> a"
    and f: "timer (f (heap st c)) = None \<or> timer (f (heap st c)) = timer (heap st c) \<or>
            (\<exists>s cv. timer (f (heap st c)) = Some (s, cv) \<and> s \<noteq> sid)"
  shows "stands sid a obj ks ps (updateObject c f st)"
  unfolding stands_def owned_def
proof (intro conjI allI impI)
  fix s assume "sessions (updateObject c f st) s = Some a"
  then have "sessions st s = Some a" by (simp add: updateObject_def)
  then show "s = sid" by (rule standsD(3)[OF b])
next
  fix d cv assume h: "timer (heap (updateObject c f st) d) = Some (sid, cv)"
  show "d = a"
  proof (cases "d = c")
    case True
    with h have "timer (f (heap st c)) = Some (sid, cv)" by (simp add: updateObject_def)
    with f have "timer (heap st c) = Some (sid, cv)" by auto
    from standsD(4)[OF b this] ne show ?thesis by simp
  next
    case False
    with h have "timer (heap st d) = Some (sid, cv)" by (simp add: updateObject_def)
    then show ?thesis by (rule standsD(4)[OF b])
  qed
qed (use ne standsD(1,2,5,6,7)[OF b] in \<open>simp_all add: updateObject_def\<close>)

lemma stands_lists:
  assumes b: "stands sid a obj ks ps st"
    and "sessions st' = sessions st" "heap st' = heap st" "nextAddr st' = nextAddr st"
    and "filter (about sid a) (suspended st') = filter (about sid a) (suspended st)"
    and "promptsTo sid (emitted st') = promptsTo sid (emitted st)"
  shows "stands sid a obj ks ps st'"
  using assms by (simp add: stands_def owned_def)

lemma stands_getOrCreate:
  assumes b: "stands sid a obj ks ps st"
  shows "stands sid a obj ks ps (snd (getOrCreateState s st))"
    and "fst (getOrCreateState s st) = a \<longleftrightarrow> s = sid"
proof -
  show "stands sid a obj ks ps (snd (getOrCreateState s st))"
  proof (cases "sessions st s")
    case (Some c)
    with b show ?thesis by (simp add: getOrCreateState_def)
  next
    case None
    let ?st' = "st\<lparr>sessions := (sessions st)(s \<mapsto> nextAddr st),
                     heap := (heap st)(nextAddr st := newSessionState),
                     nextAddr := nextAddr st + 1\<rparr>"
    from None standsD(1)[OF b] have ne: "s \<noteq> sid" by auto
    from standsD(2)[OF b] have na: "a \<noteq> nextAddr st" by simp
    have "stands sid a obj ks ps ?st'"
      unfolding stands_def owned_def
    proof (intro conjI allI impI)
      fix s' assume h: "sessions ?st' s' = Some a"
      with na have "s' \<noteq> s" by auto
      with h have "sessions st s' = Some a" by simp
      then show "s' = sid" by (rule standsD(3)[OF b])
    next
      fix d cv assume h: "timer (heap ?st' d) = Some (sid, cv)"
      then have "d \<noteq> nextAddr st" by (auto simp: newSessionState_def)
      with h have "timer (heap st d) = Some (sid, cv)" by simp
      then show "d = a" by (rule standsD(4)[OF b])
    qed (use ne ne[symmetric] na standsD(1,2,5,6,7)[OF b] in simp_all)
    with None show ?thesis by (simp add: getOrCreateState_def)
  qed
  show "fst (getOrCreateState s st) = a \<longleftrightarrow> s = sid"
  proof (cases "sessions st s")
    case (Some c)
    with standsD(1)[OF b] standsD(3)[OF b, of s] show ?thesis
      by (auto simp: getOrCreateState_def)
  next
    case None
    with standsD(1,2)[OF b] show ?thesis
      by (auto simp: getOrCreateState_def)
  qed
qed

lemma stands_invalidate:
  assumes b: "stands sid a obj ks ps st" and ne: "s \<noteq> sid"
  shows "stands sid a obj ks ps (invalidate s st)"
proof (cases "sessions st s")
  case None
  with b show ?thesis by (simp add: invalidate_def)
next
  case (Some c)
  have "stands sid a obj ks ps (updateObject c invalidated st)"
    by (rule stands_updateObject[OF b stands_other_object[OF b Some ne]])
      (simp add: invalidated_def clearTimer_def Let_def)
  with b Some show ?thesis by (simp add: invalidate_def)
qed

lemma stands_set_mode:
  assumes b: "stands sid a obj ks ps st" and ne: "c \<noteq> a"
  shows "stands sid a obj ks ps (updateObject c (\<lambda>x. x\<lparr>mode := m\<rparr>) st)"
  by (rule stands_updateObject[OF b ne]) simp

lemma stands_markRecovering:
  assumes b: "stands sid a obj ks ps st" and ne: "s \<noteq> sid"
  shows "stands sid a obj ks ps (markRecovering s st)"
proof -
  define c where "c = fst (getOrCreateState s st)"
  define st2 where "st2 = invalidate s (snd (getOrCreateState s st))"
  have b2: "stands sid a obj ks ps st2"
    unfolding st2_def by (rule stands_invalidate[OF stands_getOrCreate(1)[OF b] ne])
  from stands_getOrCreate(2)[OF b, of s] ne have ca: "c \<noteq> a" by (simp add: c_def)
  from stands_set_mode[OF b2 ca, of Recovering] show ?thesis
    by (simp add: markRecovering_def c_def st2_def Let_def case_prod_beta)
qed

lemma stands_markRecoveryComplete:
  assumes b: "stands sid a obj ks ps st" and ne: "s \<noteq> sid"
  shows "stands sid a obj ks ps (markRecoveryComplete s st)"
proof (cases "sessions st s")
  case None
  with b show ?thesis by (simp add: markRecoveryComplete_def)
next
  case (Some c)
  from stands_set_mode[OF b stands_other_object[OF b Some ne], of Idle] b Some show ?thesis
    by (simp add: markRecoveryComplete_def)
qed

lemma stands_executeInjection:
  assumes b: "stands sid a obj ks ps st" and ne: "s \<noteq> sid"
  shows "stands sid a obj ks ps (executeInjection env s cv st)"
proof (cases "sessions st s")
  case None
  with b show ?thesis by (simp add: executeInjection_def)
next
  case (Some c)
  note ca = stands_other_object[OF b Some ne]
  note j = stands_set_mode[OF b ca, of Injecting]
  have "stands sid a obj ks ps ((updateObject c (\<lambda>x. x\<lparr>mode := Injecting\<rparr>) st)
          \<lparr>suspended := suspended st @ [InjectionAwaitsTodos s c cv]\<rparr>)"
    by (rule stands_lists[OF j]) (simp_all add: updateObject_def about_def ne ca)
  with b stands_set_mode[OF b ca, of Idle] Some show ?thesis
    by (simp add: executeInjection_def)
qed

lemma stands_injectionAfterTodos:
  assumes b: "stands sid a obj ks ps st" and ne: "s \<noteq> sid" "c \<noteq> a"
  shows "stands sid a obj ks ps (injectionAfterTodos env s c cv st)"
proof -
  have j: "stands sid a obj ks ps (updateObject c (\<lambda>x. x\<lparr>lastAttemptedAt := t\<rparr>) st)" for t
    by (rule stands_updateObject[OF b ne(2)]) simp
  have "stands sid a obj ks ps ((updateObject c (\<lambda>x. x\<lparr>lastAttemptedAt := t\<rparr>) st)
          \<lparr>emitted := emitted st @ [ContinuationPrompt s ag body],
            suspended := suspended st @ [InjectionAwaitsPrompt c]\<rparr>)" for t ag body
    by (rule stands_lists[OF j[of t]]) (simp_all add: updateObject_def promptsTo_def about_def ne)
  with stands_set_mode[OF b ne(2), of Idle] show ?thesis
    by (simp add: injectionAfterTodos_def Let_def split: option.splits)
qed

lemma stands_injectionAfterPrompt:
  assumes b: "stands sid a obj ks ps st" and ne: "c \<noteq> a"
  shows "stands sid a obj ks ps (injectionAfterPrompt c st)"
  unfolding injectionAfterPrompt_def by (rule stands_set_mode[OF b ne])

lemma stands_startCountdown:
  assumes b: "stands sid a obj ks ps st" and ne: "s \<noteq> sid"
  shows "stands sid a obj ks ps (startCountdown s n st)"
proof -
  define c where "c = fst (getOrCreateState s st)"
  define st2 where "st2 = invalidate s (snd (getOrCreateState s st))"
  define cv where "cv = version (heap st2 c) + 1"
  have b2: "stands sid a obj ks ps st2"
    unfolding st2_def by (rule stands_invalidate[OF stands_getOrCreate(1)[OF b] ne])
  from stands_getOrCreate(2)[OF b, of s] ne have ca: "c \<noteq> a" by (simp add: c_def)
  have b3: "stands sid a obj ks ps
      (updateObject c (\<lambda>x. x\<lparr>version := version x + 1, mode := CountingDown\<rparr>) st2)"
    by (rule stands_updateObject[OF b2 ca]) simp
  have b4: "stands sid a obj ks ps
      ((updateObject c (\<lambda>x. x\<lparr>version := version x + 1, mode := CountingDown\<rparr>) st2)
         \<lparr>emitted := emitted st2 @ [CountdownToast COUNTDOWN_SECONDS n],
           intervals := intervals st2 @ [(c, cv, COUNTDOWN_SECONDS, n)]\<rparr>)"
    by (rule stands_lists[OF b3]) (simp_all add: updateObject_def)
  have "stands sid a obj ks ps (updateObject c (\<lambda>x. x\<lparr>timer := Some (s, cv)\<rparr>)
      ((updateObject c (\<lambda>x. x\<lparr>version := version x + 1, mode := CountingDown\<rparr>) st2)
         \<lparr>emitted := emitted st2 @ [CountdownToast COUNTDOWN_SECONDS n],
           intervals := intervals st2 @ [(c, cv, COUNTDOWN_SECONDS, n)]\<rparr>))"
    by (rule stands_updateObject[OF b4 ca]) (simp add: ne)
  then show ?thesis
    by (simp add: startCountdown_def c_def st2_def cv_def updateObject_def Let_def case_prod_beta)
qed

lemma stands_timerFires:
  assumes b: "stands sid a obj ks ps st" and ne: "c \<noteq> a"
  shows "stands sid a obj ks ps (timerFires env c st)"
proof (cases "timer (heap st c)")
  case None
  with b show ?thesis by (simp add: timerFires_def)
next
  case (Some p)
  obtain s cv where p: "p = (s, cv)" by (cases p) auto
  from standsD(4)[OF b, of c cv] Some p ne have s: "s \<noteq> sid" by auto
  have 1: "stands sid a obj ks ps (st\<lparr>intervals := xs\<rparr>)" for xs
    by (rule stands_lists[OF b]) simp_all
  have "stands sid a obj ks ps (updateObject c clearTimer (st\<lparr>intervals := xs\<rparr>))" for xs
    by (rule stands_updateObject[OF 1 ne]) (simp add: clearTimer_def)
  from stands_executeInjection[OF this s] Some p show ?thesis
    by (simp add: timerFires_def)
qed

lemma stands_toastTick:
  assumes b: "stands sid a obj ks ps st"
  shows "stands sid a obj ks ps (toastTick iv st)"
proof -
  have "stands sid a obj ks ps (st\<lparr>intervals := xs, emitted := emitted st @ es\<rparr>)"
    if "es = [] \<or> (\<exists>k n. es = [CountdownToast k n])" for xs es
    by (rule stands_lists[OF b]) (use that in auto)
  from this[of "[]"] this b show ?thesis
    by (cases iv) (simp add: toastTick_def)
qed

lemma stands_idleReceived:
  assumes b: "stands sid a obj ks ps st" and ne: "s \<noteq> Some sid"
  shows "stands sid a obj ks ps (idleReceived env s st)"
proof (cases "falsy s \<or> \<not> isMainSession env (the s)")
  case True
  with b show ?thesis by (auto simp: idleReceived_def)
next
  case False
  with ne have n: "the s \<noteq> sid" by (cases s) (simp_all add: falsy_def)
  define st1 where "st1 = snd (getOrCreateState (the s) st)"
  have b1: "stands sid a obj ks ps st1"
    unfolding st1_def by (rule stands_getOrCreate(1)[OF b])
  have "stands sid a obj ks ps (st1\<lparr>suspended := suspended st1 @ [IdleAwaitsTodos (the s)]\<rparr>)"
    by (rule stands_lists[OF b1]) (simp_all add: about_def n)
  with b1 False show ?thesis
    by (simp add: idleReceived_def st1_def case_prod_beta)
qed

lemma stands_idleAfterTodos:
  assumes b: "stands sid a obj ks ps st" and ne: "s \<noteq> sid"
  shows "stands sid a obj ks ps (idleAfterTodos env s st)"
  using b stands_startCountdown[OF b ne]
  by (simp add: idleAfterTodos_def split: option.splits)

lemma stands_forget_session:
  assumes b: "stands sid a obj ks ps st" and ne: "s \<noteq> sid"
  shows "stands sid a obj ks ps (st\<lparr>sessions := (sessions st)(s := None)\<rparr>)"
  unfolding stands_def owned_def
proof (intro conjI allI impI)
  fix s' assume "sessions (st\<lparr>sessions := (sessions st)(s := None)\<rparr>) s' = Some a"
  then have "sessions st s' = Some a" by (simp split: if_splits)
  then show "s' = sid" by (rule standsD(3)[OF b])
next
  fix d cv assume "timer (heap (st\<lparr>sessions := (sessions st)(s := None)\<rparr>) d) = Some (sid, cv)"
  then have "timer (heap st d) = Some (sid, cv)" by simp
  then show "d = a" by (rule standsD(4)[OF b])
qed (use ne ne[symmetric] standsD(1,2,5,6,7)[OF b] in simp_all)

lemma stands_handler:
  assumes b: "stands sid a obj ks ps st" and q: "sessionOfEvent ev \<noteq> Some sid"
  shows "stands sid a obj ks ps (handler env ev st)"
proof -
  have n: "the s \<noteq> sid" if "s \<noteq> Some sid" "\<not> falsy s" for s
    using that by (cases s) (simp_all add: falsy_def)
  show ?thesis
  proof (cases ev)
    case (SessionError s)
    show ?thesis
    proof (cases "falsy s")
      case True
      with b show ?thesis by (simp add: handler_def SessionError)
    next
      case False
      with q SessionError have ne: "the s \<noteq> sid" by (simp add: sessionOfEvent_def n)
      define c where "c = fst (getOrCreateState (the s) st)"
      define st2 where "st2 = invalidate (the s) (snd (getOrCreateState (the s) st))"
      have b2: "stands sid a obj ks ps st2"
        unfolding st2_def by (rule stands_invalidate[OF stands_getOrCreate(1)[OF b] ne])
      from stands_getOrCreate(2)[OF b, of "the s"] ne have ca: "c \<noteq> a" by (simp add: c_def)
      from stands_set_mode[OF b2 ca, of ErrorBypass] False show ?thesis
        by (simp add: handler_def SessionError c_def st2_def Let_def case_prod_beta)
    qed
  next
    case (SessionIdle s)
    with q have "s \<noteq> Some sid" by (simp add: sessionOfEvent_def)
    from stands_idleReceived[OF b this] SessionIdle show ?thesis by (simp add: handler_def)
  next
    case (MessageUpdated s msgRole finish)
    show ?thesis
    proof (cases "falsy s")
      case True
      with b show ?thesis by (simp add: handler_def MessageUpdated)
    next
      case False
      with q MessageUpdated have ne: "the s \<noteq> sid" by (simp add: sessionOfEvent_def n)
      have "stands sid a obj ks ps (updateObject c (\<lambda>x. x\<lparr>mode := Idle\<rparr>) st)"
        if "sessions st (the s) = Some c" for c
        by (rule stands_set_mode[OF b stands_other_object[OF b that ne]])
      with b False ne show ?thesis
        by (simp add: handler_def MessageUpdated stands_invalidate split: option.splits)
    qed
  next
    case (MessagePartUpdated s msgRole)
    show ?thesis
    proof (cases "falsy s")
      case True
      with b show ?thesis by (simp add: handler_def MessagePartUpdated)
    next
      case False
      with q MessagePartUpdated have ne: "the s \<noteq> sid" by (simp add: sessionOfEvent_def n)
      with b show ?thesis by (simp add: handler_def MessagePartUpdated stands_invalidate)
    qed
  next
    case (ToolExecuteBefore s)
    show ?thesis
    proof (cases "falsy s")
      case True
      with b show ?thesis by (simp add: handler_def ToolExecuteBefore)
    next
      case False
      with q ToolExecuteBefore have ne: "the s \<noteq> sid" by (simp add: sessionOfEvent_def n)
      with b show ?thesis by (simp add: handler_def ToolExecuteBefore stands_invalidate)
    qed
  next
    case (ToolExecuteAfter s)
    show ?thesis
    proof (cases "falsy s")
      case True
      with b show ?thesis by (simp add: handler_def ToolExecuteAfter)
    next
      case False
      with q ToolExecuteAfter have ne: "the s \<noteq> sid" by (simp add: sessionOfEvent_def n)
      with b show ?thesis by (simp add: handler_def ToolExecuteAfter stands_invalidate)
    qed
  next
    case (SessionDeleted s)
    show ?thesis
    proof (cases "falsy s")
      case True
      with b show ?thesis by (simp add: handler_def SessionDeleted)
    next
      case False
      with q SessionDeleted have ne: "the s \<noteq> sid" by (simp add: sessionOfEvent_def n)
      have "stands sid a obj ks ps
              ((updateObject c clearTimer st)\<lparr>sessions := (sessions st)(the s := None)\<rparr>)"
        if "sessions st (the s) = Some c" for c
      proof -
        have "stands sid a obj ks ps (updateObject c clearTimer st)"
          by (rule stands_updateObject[OF b stands_other_object[OF b that ne]])
            (simp add: clearTimer_def)
        from stands_forget_session[OF this ne] show ?thesis by (simp add: updateObject_def)
      qed
      with False stands_forget_session[OF b ne] show ?thesis
        by (simp add: handler_def SessionDeleted split: option.splits)
    qed
  next
    case OtherEvent
    with b show ?thesis by (simp add: handler_def)
  qed
qed

lemma filter_remove1_other: "\<not> P k \<Longrightarrow> filter P (remove1 k xs) = filter P xs"
  by (induction xs) auto

lemma stands_resume:
  assumes b: "stands sid a obj ks ps st" and k: "\<not> about sid a k"
    and f: "\<And>s. stands sid a obj ks ps s \<Longrightarrow> stands sid a obj ks ps (f s)"
  shows "stands sid a obj ks ps (resume k f st)"
proof (cases "k \<in> set (suspended st)")
  case True
  have "stands sid a obj ks ps (st\<lparr>suspended := remove1 k (suspended st)\<rparr>)"
    by (rule stands_lists[OF b])
      (simp_all add: filter_remove1_other[of "about sid a" k, OF k])
  from f[OF this] True show ?thesis by (simp add: resume_def)
next
  case False
  with b show ?thesis by (simp add: resume_def)
qed

lemma foreign_step:
  assumes b: "stands sid a obj ks ps st" and q: "foreignTo sid a s"
  shows "stands sid a obj ks ps (step (env, s) st)"
proof (cases s)
  case (Deliver ev)
  with q have "sessionOfEvent ev \<noteq> Some sid" by (simp add: foreignTo_def)
  from stands_handler[OF b this] Deliver show ?thesis by (simp add: step_def)
next
  case (TodosForIdle s')
  with q have ne: "s' \<noteq> sid" by (simp add: foreignTo_def)
  have "stands sid a obj ks ps (resume (IdleAwaitsTodos s') (idleAfterTodos env s') st)"
    by (rule stands_resume[OF b]) (simp_all add: about_def ne stands_idleAfterTodos)
  with TodosForIdle show ?thesis by (simp add: step_def)
next
  case (TimerFires c)
  with q have "c \<noteq> a" by (simp add: foreignTo_def)
  from stands_timerFires[OF b this] TimerFires show ?thesis by (simp add: step_def)
next
  case (ToastTick iv)
  with stands_toastTick[OF b] show ?thesis by (simp add: step_def)
next
  case (TodosForInjection s' c cv)
  with q have ne: "s' \<noteq> sid" "c \<noteq> a" by (simp_all add: foreignTo_def)
  have "stands sid a obj ks ps
          (resume (InjectionAwaitsTodos s' c cv) (injectionAfterTodos env s' c cv) st)"
    by (rule stands_resume[OF b]) (simp_all add: about_def ne stands_injectionAfterTodos)
  with TodosForInjection show ?thesis by (simp add: step_def)
next
  case (PromptSettles c)
  with q have ne: "c \<noteq> a" by (simp add: foreignTo_def)
  have "stands sid a obj ks ps (resume (InjectionAwaitsPrompt c) (injectionAfterPrompt c) st)"
    by (rule stands_resume[OF b]) (simp_all add: about_def ne stands_injectionAfterPrompt)
  with PromptSettles show ?thesis by (simp add: step_def)
next
  case (MarkRecovering s')
  with q have "s' \<noteq> sid" by (simp add: foreignTo_def)
  from stands_markRecovering[OF b this] MarkRecovering show ?thesis by (simp add: step_def)
next
  case (MarkRecoveryComplete s')
  with q have "s' \<noteq> sid" by (simp add: foreignTo_def)
  from stands_markRecoveryComplete[OF b this] MarkRecoveryComplete show ?thesis
    by (simp add: step_def)
qed

lemma foreign_run:
  assumes "stands sid a obj ks ps st" "list_all (\<lambda>es. foreignTo sid a (snd es)) steps"
  shows "stands sid a obj ks ps (run steps st)"
  using assms(2)
proof (induction steps rule: rev_induct)
  case Nil
  from assms(1) show ?case by (simp add: run_def)
next
  case (snoc es steps)
  then have b: "stands sid a obj ks ps (run steps st)" and q: "foreignTo sid a (snd es)"
    by simp_all
  from foreign_step[OF b q, of "fst es"] show ?case by (simp add: run_snoc)
qed

subsection \<open>The steps of a countdown\<close>

lemma run_append: "run (xs @ ys) st = run ys (run xs st)"
  by (simp add: run_def)

lemma run_single: "run [x] st = step x st"
  by (simp add: run_def)

lemma stands_own_update:
  assumes b: "stands sid a obj ks ps st"
    and "sessions st' = sessions st" "nextAddr st' = nextAddr st"
    and h: "heap st' = (heap st)(a := obj')"
    and "filter (about sid a) (suspended st') = ks'" "promptsTo sid (emitted st') = ps'"
  shows "stands sid a obj' ks' ps' st'"
  unfolding stands_def owned_def
proof (intro conjI allI impI)
  fix s assume "sessions st' s = Some a"
  with assms(2) have "sessions st s = Some a" by simp
  then show "s = sid" by (rule standsD(3)[OF b])
next
  fix d cv assume t: "timer (heap st' d) = Some (sid, cv)"
  show "d = a"
  proof (cases "d = a")
    case False
    with t h have "timer (heap st d) = Some (sid, cv)" by simp
    then show ?thesis by (rule standsD(4)[OF b])
  qed simp
qed (use assms(2,3,4,5,6) standsD(1,2)[OF b] in simp_all)

lemma stands_suspended:
  assumes "stands sid a obj [k] ps st"
  shows "k \<in> set (suspended st)" "filter (about sid a) (remove1 k (suspended st)) = []"
proof -
  from standsD(6)[OF assms] have f: "filter (about sid a) (suspended st) = [k]" .
  then have "k \<in> set (filter (about sid a) (suspended st))" by simp
  then show "k \<in> set (suspended st)" by simp
  from f show "filter (about sid a) (remove1 k (suspended st)) = []"
    by (simp add: filter_remove1)
qed

lemma stands_not_suspended:
  assumes "stands sid a obj [] ps st" "about sid a k"
  shows "k \<notin> set (suspended st)"
proof
  assume "k \<in> set (suspended st)"
  with assms(2) have "k \<in> set (filter (about sid a) (suspended st))" by simp
  with standsD(6)[OF assms(1)] show False by simp
qed

lemma idle_received_stands:
  assumes c: "consistent st" and t: "timersOwned st"
    and sid: "sid \<noteq> []" "isMainSession e1 sid" "readyToCount st sid"
    and n: "filter (about sid (fst (getOrCreateState sid st))) (suspended st) = []"
  shows "stands sid (fst (getOrCreateState sid st)) (objectBefore st sid) [IdleAwaitsTodos sid]
           (promptsTo sid (emitted st)) (step (e1, Deliver (SessionIdle (Some sid))) st)"
proof -
  define a where "a = fst (getOrCreateState sid st)"
  define st1 where "st1 = snd (getOrCreateState sid st)"
  define st' where "st' = step (e1, Deliver (SessionIdle (Some sid))) st"
  have m: "mode (heap st1 a) = Idle"
    using sid(3) unfolding st1_def a_def
    by (auto simp: readyToCount_def getOrCreateState_def newSessionState_def split: option.splits)
  have e: "st' = st1\<lparr>suspended := suspended st1 @ [IdleAwaitsTodos sid]\<rparr>"
    using sid(1,2) m
    by (simp add: st'_def step_def handler_def idleReceived_def falsy_def st1_def a_def
        case_prod_beta)
  have c': "consistent st'" unfolding st'_def by (rule consistent_step[OF c])
  have t': "timersOwned st'" unfolding st'_def by (rule timersOwned_step[OF t])
  have s: "sessions st' sid = Some a"
    unfolding e st1_def a_def by (simp add: getOrCreateState_props(1))
  have "stands sid a (objectBefore st sid) [IdleAwaitsTodos sid] (promptsTo sid (emitted st)) st'"
    unfolding stands_def owned_def
  proof (intro conjI allI impI)
    show "sessions st' sid = Some a" by (rule s)
    show "a < nextAddr st'" by (rule consistentD(5)[OF c' s])
    show "s' = sid" if "sessions st' s' = Some a" for s'
      by (rule consistentD(6)[OF c' that s])
    show "d = a" if "timer (heap st' d) = Some (sid, cv)" for d cv
      using timersOwnedD[OF t' that] s by simp
    show "heap st' a = objectBefore st sid"
      unfolding e by (simp add: objectBefore_def st1_def a_def)
    show "filter (about sid a) (suspended st') = [IdleAwaitsTodos sid]"
      unfolding e using n
      by (simp add: st1_def a_def getOrCreateState_props(3) about_def)
    show "promptsTo sid (emitted st') = promptsTo sid (emitted st)"
      unfolding e by (simp add: st1_def getOrCreateState_props(2))
  qed
  then show ?thesis by (simp add: a_def st'_def)
qed

lemma todos_start_countdown:
  assumes b: "stands sid a obj [IdleAwaitsTodos sid] ps st" and m: "mode obj = Idle"
    and td: "todoResponse e2 = Some todos" "0 < getIncompleteCount todos" "\<not> hasRunningBgTasks e2"
  shows "stands sid a
           (obj\<lparr>version := version obj + 2, mode := CountingDown,
                timer := Some (sid, version obj + 2)\<rparr>) [] ps
           (step (e2, TodosForIdle sid) st)"
proof -
  note k = stands_suspended[OF b]
  from td(2) have ne: "todos \<noteq> []" by (auto simp: getIncompleteCount_def)
  let ?obj' = "obj\<lparr>version := version obj + 2, mode := CountingDown,
                   timer := Some (sid, version obj + 2)\<rparr>"
  have e: "step (e2, TodosForIdle sid) st
      = st\<lparr>suspended := remove1 (IdleAwaitsTodos sid) (suspended st),
           heap := (heap st)(a := ?obj'),
           emitted := emitted st @ [CountdownToast COUNTDOWN_SECONDS (getIncompleteCount todos)],
           intervals := intervals st @
             [(a, version obj + 2, COUNTDOWN_SECONDS, getIncompleteCount todos)]\<rparr>"
    using k(1) td ne m standsD(1,5)[OF b]
    by (simp add: step_def resume_def idleAfterTodos_def startCountdown_def getOrCreateState_def
        invalidate_def updateObject_def invalidated_def clearTimer_def Let_def)
  show ?thesis
    unfolding e
    by (rule stands_own_update[OF b]) (simp_all add: k(2) standsD(7)[OF b])
qed

lemma timer_fires_stands:
  assumes b: "stands sid a obj [] ps st"
    and o: "timer obj = Some (sid, cv)" "version obj = cv" "mode obj = CountingDown"
      "\<not> throttled e3 obj"
  shows "stands sid a (obj\<lparr>timer := None, mode := Injecting\<rparr>) [InjectionAwaitsTodos sid a cv] ps
           (step (e3, TimerFires a) st)"
proof -
  have e: "step (e3, TimerFires a) st
      = st\<lparr>intervals := filter (\<lambda>iv. \<not> (fst iv = a \<and> fst (snd iv) = cv)) (intervals st),
           heap := (heap st)(a := obj\<lparr>timer := None, mode := Injecting\<rparr>),
           suspended := suspended st @ [InjectionAwaitsTodos sid a cv]\<rparr>"
    using o standsD(1,5)[OF b]
    by (simp add: step_def timerFires_def executeInjection_def updateObject_def clearTimer_def
        throttled_def)
  show ?thesis
    unfolding e
    by (rule stands_own_update[OF b])
      (simp_all add: standsD(6,7)[OF b] about_def)
qed

lemma injection_stands:
  assumes b: "stands sid a obj [InjectionAwaitsTodos sid a cv] ps st" and v: "version obj = cv"
    and td: "todoResponse e4 = Some todos" "0 < getIncompleteCount todos"
      "\<not> hasRunningBgTasks e4"
      "agentHasWritePermission (prevMessage e4)" "\<not> isPlanModeAgent (prevMessage e4)"
  shows "stands sid a (obj\<lparr>lastAttemptedAt := Some (clock e4)\<rparr>) [InjectionAwaitsPrompt a]
           (ps @ [ContinuationPrompt sid (agentOf (prevMessage e4)) (continuationText todos)])
           (step (e4, TodosForInjection sid a cv) st)"
proof -
  note k = stands_suspended[OF b]
  have e: "step (e4, TodosForInjection sid a cv) st
      = st\<lparr>suspended := remove1 (InjectionAwaitsTodos sid a cv) (suspended st) @ [InjectionAwaitsPrompt a],
           heap := (heap st)(a := obj\<lparr>lastAttemptedAt := Some (clock e4)\<rparr>),
           emitted := emitted st @
             [ContinuationPrompt sid (agentOf (prevMessage e4)) (continuationText todos)]\<rparr>"
    using k(1) td v standsD(5)[OF b]
    by (simp add: step_def resume_def injectionAfterTodos_def updateObject_def Let_def)
  show ?thesis
    unfolding e
    by (rule stands_own_update[OF b])
      (simp_all add: k(2) standsD(7)[OF b, symmetric] about_def promptsTo_def)
qed

lemma prompt_settles_stands:
  assumes b: "stands sid a obj [InjectionAwaitsPrompt a] ps st"
  shows "stands sid a (obj\<lparr>mode := Idle\<rparr>) [] ps (step (e5, PromptSettles a) st)"
proof -
  note k = stands_suspended[OF b]
  have e: "step (e5, PromptSettles a) st
      = st\<lparr>suspended := remove1 (InjectionAwaitsPrompt a) (suspended st),
           heap := (heap st)(a := obj\<lparr>mode := Idle\<rparr>)\<rparr>"
    using k(1) standsD(5)[OF b]
    by (simp add: step_def resume_def injectionAfterPrompt_def updateObject_def)
  show ?thesis
    unfolding e
    by (rule stands_own_update[OF b]) (simp_all add: k(2) standsD(7)[OF b])
qed

lemma tool_event_stands:
  assumes b: "stands sid a obj ks ps st" and sid: "sid \<noteq> []" and m: "mode obj \<noteq> Recovering"
  shows "stands sid a (invalidated obj) ks ps (step (e6, Deliver (ToolExecuteBefore (Some sid))) st)"
proof -
  have e: "step (e6, Deliver (ToolExecuteBefore (Some sid))) st
      = st\<lparr>heap := (heap st)(a := invalidated obj)\<rparr>"
    using sid m standsD(1,5)[OF b]
    by (simp add: step_def handler_def falsy_def invalidate_def updateObject_def)
  show ?thesis
    unfolding e
    by (rule stands_own_update[OF b]) (simp_all add: standsD(6,7)[OF b])
qed

lemma settled_step:
  assumes b: "stands sid a obj [] ps st" and o: "timer obj = None" "mode obj \<noteq> Recovering"
    and q: "noEventFor sid s"
  shows "stands sid a obj [] ps (step (env, s) st)"
proof (cases "foreignTo sid a s")
  case True
  from foreign_step[OF b True] show ?thesis .
next
  case False
  have "step (env, s) st = st"
  proof (cases s)
    case (Deliver ev)
    with False q show ?thesis by (simp add: foreignTo_def noEventFor_def)
  next
    case (TodosForIdle s')
    with False have "s' = sid" by (simp add: foreignTo_def)
    with stands_not_suspended[OF b, of "IdleAwaitsTodos sid"] TodosForIdle show ?thesis
      by (simp add: step_def resume_def about_def)
  next
    case (TimerFires c)
    with False have "c = a" by (simp add: foreignTo_def)
    with o(1) standsD(5)[OF b] TimerFires show ?thesis
      by (simp add: step_def timerFires_def)
  next
    case (ToastTick iv)
    with False show ?thesis by (simp add: foreignTo_def)
  next
    case (TodosForInjection s' c cv)
    with False have "about sid a (InjectionAwaitsTodos s' c cv)"
      by (auto simp: foreignTo_def about_def)
    from stands_not_suspended[OF b this] TodosForInjection show ?thesis
      by (simp add: step_def resume_def)
  next
    case (PromptSettles c)
    with False have "about sid a (InjectionAwaitsPrompt c)"
      by (simp add: foreignTo_def about_def)
    from stands_not_suspended[OF b this] PromptSettles show ?thesis
      by (simp add: step_def resume_def)
  next
    case (MarkRecovering s')
    with False q show ?thesis by (simp add: foreignTo_def noEventFor_def)
  next
    case (MarkRecoveryComplete s')
    with False have "s' = sid" by (simp add: foreignTo_def)
    with o(2) standsD(1,5)[OF b] MarkRecoveryComplete show ?thesis
      by (simp add: step_def markRecoveryComplete_def)
  qed
  with b show ?thesis by simp
qed

lemma settled_run:
  assumes "stands sid a obj [] ps st" "timer obj = None" "mode obj \<noteq> Recovering"
    and "list_all (\<lambda>es. noEventFor sid (snd es)) steps"
  shows "stands sid a obj [] ps (run steps st)"
  using assms(4)
proof (induction steps rule: rev_induct)
  case Nil
  from assms(1) show ?case by (simp add: run_def)
next
  case (snoc es steps)
  then have b: "stands sid a obj [] ps (run steps st)" and q: "noEventFor sid (snd es)"
    by simp_all
  from settled_step[OF b assms(2,3) q, of "fst es"] show ?case by (simp add: run_snoc)
qed

text \<open>
  C1, amended. Let the enforcer be in a state it can reach, and let the session be the
  main session (or no main session be set), with no state object yet or its object in
  mode \<open>Idle\<close>, and with no suspended function that concerns the session or its object.
  Let \<open>session.todo\<close> answer with todos of which some are incomplete and no background
  task of the session run, both when \<open>session.idle\<close> is handled and when the injection
  re-checks; let no injection have been attempted in the 10 seconds before the countdown
  elapses; and let the last message's agent have write and edit permission and not be a
  plan-mode agent. Then \<open>session.idle\<close>, the answer of \<open>session.todo\<close>, the countdown's
  timer, the second answer of \<open>session.todo\<close> and the return of \<open>session.prompt\<close>, in this
  order and with any steps foreign to the session before, between and after them (the
  toast ticks of the countdown, events and timers of other sessions), send exactly one
  continuation prompt to the session, whose text has the number of incomplete todos
  before \<open>remaining\<close>, and leave the session in mode \<open>Idle\<close>. If instead
  \<open>tool.execute.before\<close> for the session arrives while the countdown is pending, at any
  point of it, then no continuation prompt is sent to the session and no timer of the
  session is pending, through whatever steps follow that are not events of the session
  (the stale timer and callbacks among them).
\<close>

theorem idle_countdown_sends_one_prompt_unless_cancelled:
  assumes "st = run before createTodoContinuationEnforcer"
    and "sid \<noteq> []" "isMainSession e1 sid" "readyToCount st sid"
    and "a = fst (getOrCreateState sid st)" "cv = version (objectBefore st sid) + 2"
    and "filter (about sid a) (suspended st) = []"
    and "todoResponse e2 = Some todos" "0 < getIncompleteCount todos" "\<not> hasRunningBgTasks e2"
    and "\<not> throttled e3 (objectBefore st sid)"
    and "todoResponse e4 = Some todos'" "0 < getIncompleteCount todos'" "\<not> hasRunningBgTasks e4"
    and "agentHasWritePermission (prevMessage e4)" "\<not> isPlanModeAgent (prevMessage e4)"
    and "list_all (\<lambda>es. foreignTo sid a (snd es)) (o1 @ o2 @ o3 @ o4 @ o5)"
    and "list_all (\<lambda>es. noEventFor sid (snd es)) o6"
  shows "promptsTo sid (emitted (run ((e1, Deliver (SessionIdle (Some sid))) # o1 @
                                     (e2, TodosForIdle sid) # o2 @
                                     (e3, TimerFires a) # o3 @
                                     (e4, TodosForInjection sid a cv) # o4 @
                                     (e5, PromptSettles a) # o5) st))
           = promptsTo sid (emitted st) @
               [ContinuationPrompt sid (agentOf (prevMessage e4)) (continuationText todos')] \<and>
         sublist (showNat (getIncompleteCount todos') @ '' remaining'') (continuationText todos') \<and>
         modeOf (run ((e1, Deliver (SessionIdle (Some sid))) # o1 @
                      (e2, TodosForIdle sid) # o2 @
                      (e3, TimerFires a) # o3 @
                      (e4, TodosForInjection sid a cv) # o4 @
                      (e5, PromptSettles a) # o5) st) sid = Some Idle \<and>
         promptsTo sid (emitted (run ((e1, Deliver (SessionIdle (Some sid))) # o1 @
                                     (e2, TodosForIdle sid) # o2 @
                                     (e6, Deliver (ToolExecuteBefore (Some sid))) # o6) st))
           = promptsTo sid (emitted st) \<and>
         timerOf (run ((e1, Deliver (SessionIdle (Some sid))) # o1 @
                       (e2, TodosForIdle sid) # o2 @
                       (e6, Deliver (ToolExecuteBefore (Some sid))) # o6) st) sid = None"
proof -
  define ob where "ob = objectBefore st sid"
  define ps where "ps = promptsTo sid (emitted st)"
  define ob2 where "ob2 = ob\<lparr>version := cv, mode := CountingDown, timer := Some (sid, cv)\<rparr>"
  define s2 where "s2 = run o2 (step (e2, TodosForIdle sid)
                          (run o1 (step (e1, Deliver (SessionIdle (Some sid))) st)))"
  define s5 where "s5 = run o5 (step (e5, PromptSettles a)
                          (run o4 (step (e4, TodosForInjection sid a cv)
                             (run o3 (step (e3, TimerFires a) s2)))))"
  define t6 where "t6 = run o6 (step (e6, Deliver (ToolExecuteBefore (Some sid))) s2)"
  have c: "consistent st"
    unfolding assms(1) by (rule consistent_run[OF consistent_initially])
  have t: "timersOwned st"
    unfolding assms(1) by (rule timersOwned_run[OF timersOwned_initially])
  from assms(17) have f: "list_all (\<lambda>es. foreignTo sid a (snd es)) o1"
    "list_all (\<lambda>es. foreignTo sid a (snd es)) o2" "list_all (\<lambda>es. foreignTo sid a (snd es)) o3"
    "list_all (\<lambda>es. foreignTo sid a (snd es)) o4" "list_all (\<lambda>es. foreignTo sid a (snd es)) o5"
    by simp_all
  have m: "mode ob = Idle"
    using assms(4) unfolding ob_def
    by (auto simp: readyToCount_def objectBefore_def getOrCreateState_def newSessionState_def
        split: option.splits)
  from idle_received_stands[OF c t assms(2,3,4) assms(7)[unfolded assms(5)]]
  have "stands sid a ob [IdleAwaitsTodos sid] ps (step (e1, Deliver (SessionIdle (Some sid))) st)"
    by (simp add: assms(5) ob_def ps_def)
  from todos_start_countdown[OF foreign_run[OF this f(1)] m assms(8,9,10)]
  have "stands sid a ob2 [] ps
          (step (e2, TodosForIdle sid) (run o1 (step (e1, Deliver (SessionIdle (Some sid))) st)))"
    by (simp add: ob2_def assms(6) ob_def)
  from foreign_run[OF this f(2)] have a2: "stands sid a ob2 [] ps s2"
    by (simp add: s2_def)
  have o2: "timer ob2 = Some (sid, cv)" "version ob2 = cv" "mode ob2 = CountingDown"
    "\<not> throttled e3 ob2"
    using assms(11) by (simp_all add: ob2_def throttled_def ob_def)
  note a3 = foreign_run[OF timer_fires_stands[OF a2 o2] f(3)]
  have v3: "version (ob2\<lparr>timer := None, mode := Injecting\<rparr>) = cv" by (simp add: ob2_def)
  note a4 = foreign_run[OF injection_stands[OF a3 v3 assms(12-16)] f(4)]
  note a5 = foreign_run[OF prompt_settles_stands[OF a4, of e5] f(5), folded s5_def]
  have r5: "run ((e1, Deliver (SessionIdle (Some sid))) # o1 @ (e2, TodosForIdle sid) # o2 @
                 (e3, TimerFires a) # o3 @ (e4, TodosForInjection sid a cv) # o4 @
                 (e5, PromptSettles a) # o5) st = s5"
    by (simp add: s5_def s2_def run_def)
  have p5: "promptsTo sid (emitted s5)
      = ps @ [ContinuationPrompt sid (agentOf (prevMessage e4)) (continuationText todos')]"
    by (rule standsD(7)[OF a5])
  have m5: "modeOf s5 sid = Some Idle"
    using standsD(1,5)[OF a5] by (simp add: modeOf_def)
  have mo: "mode ob2 \<noteq> Recovering" by (simp add: ob2_def)
  have i2: "timer (invalidated ob2) = None" "mode (invalidated ob2) \<noteq> Recovering"
    by (simp_all add: invalidated_def clearTimer_def Let_def ob2_def)
  note a6 = settled_run[OF tool_event_stands[OF a2 assms(2) mo, of e6] i2 assms(18), folded t6_def]
  have r6: "run ((e1, Deliver (SessionIdle (Some sid))) # o1 @ (e2, TodosForIdle sid) # o2 @
                 (e6, Deliver (ToolExecuteBefore (Some sid))) # o6) st = t6"
    by (simp add: t6_def s2_def run_def)
  have p6: "promptsTo sid (emitted t6) = ps" by (rule standsD(7)[OF a6])
  have t6: "timerOf t6 sid = None"
    using standsD(1,5)[OF a6] i2(1) by (simp add: timerOf_def)
  show ?thesis
    unfolding r5 r6 using p5 m5 p6 t6 remaining_in_text by (simp add: ps_def)
qed

lemma realCountdown_log:
  "emitted (run realCountdown createTodoContinuationEnforcer)
     = [CountdownToast 2 2, CountdownToast 1 2,
        ContinuationPrompt ''ses_main'' None (continuationText threeTodos)]"
  by (simp add: realCountdown_def enforcer_defs toastTick_def quietSurroundings_def
      threeTodos_counts COUNTDOWN_SECONDS_def agentHasWritePermission_def isPlanModeAgent_def
      agentOf_def)

theorem idle_countdown_witness:
  "promptsTo ''ses_main'' (emitted (run realCountdown createTodoContinuationEnforcer))
     = [ContinuationPrompt ''ses_main'' None (continuationText threeTodos)] \<and>
   sublist ''2 remaining'' (continuationText threeTodos) \<and>
   emitted (run realCountdown createTodoContinuationEnforcer)
     = [CountdownToast 2 2, CountdownToast 1 2,
        ContinuationPrompt ''ses_main'' None (continuationText threeTodos)] \<and>
   promptsTo ''ses_main'' (emitted (run cancelledCountdown createTodoContinuationEnforcer)) = [] \<and>
   timerOf (run cancelledCountdown createTodoContinuationEnforcer) ''ses_main'' = None"
proof -
  let ?q = quietSurroundings
  have h: "createTodoContinuationEnforcer = run [] createTodoContinuationEnforcer"
    "''ses_main'' \<noteq> []" "isMainSession ?q ''ses_main''"
    "readyToCount createTodoContinuationEnforcer ''ses_main''"
    "0 = fst (getOrCreateState ''ses_main'' createTodoContinuationEnforcer)"
    "2 = version (objectBefore createTodoContinuationEnforcer ''ses_main'') + 2"
    "filter (about ''ses_main'' 0) (suspended createTodoContinuationEnforcer) = []"
    "todoResponse ?q = Some threeTodos" "0 < getIncompleteCount threeTodos"
    "\<not> hasRunningBgTasks ?q"
    "\<not> throttled ?q (objectBefore createTodoContinuationEnforcer ''ses_main'')"
    by (simp_all add: run_def isMainSession_def quietSurroundings_def readyToCount_def
        createTodoContinuationEnforcer_def threeTodos_counts throttled_def objectBefore_def
        getOrCreateState_def newSessionState_def falsy_def)
  have g: "agentHasWritePermission (prevMessage ?q)" "\<not> isPlanModeAgent (prevMessage ?q)"
    by (simp_all add: quietSurroundings_def agentHasWritePermission_def isPlanModeAgent_def agentOf_def)
  have f: "list_all (\<lambda>es. foreignTo ''ses_main'' 0 (snd es))
             ([] @ [(?q, ToastTick (0, 2, 2, 2))] @ [] @ [] @ [])"
    "list_all (\<lambda>es. noEventFor ''ses_main'' (snd es))
       [(?q, ToastTick (0, 2, 1, 2)), (?q, TimerFires 0)]"
    by (simp_all add: foreignTo_def noEventFor_def)
  have e0: "emitted createTodoContinuationEnforcer = []"
    "agentOf (prevMessage ?q) = None"
    by (simp_all add: createTodoContinuationEnforcer_def quietSurroundings_def agentOf_def)
  from idle_countdown_sends_one_prompt_unless_cancelled[OF h h(8,9,10) g f,
      where ?e5.0 = ?q and ?e6.0 = ?q]
  show ?thesis
    by (simp add: realCountdown_def cancelledCountdown_def e0 promptsTo_def threeTodos_counts
        showNat_2 realCountdown_log[unfolded realCountdown_def])
qed

end
